theory Spec2Isabelle
  imports Main "HOL-Library.Word"
begin

section \<open>Strings, characters and the resolver\<close>

text \<open>
  A JavaScript string is a sequence of UTF-16 code units. \<open>str.charAt(i)\<close> returns the
  one-unit string at index \<open>i\<close>, or the empty string when \<open>i\<close> is out of range, so a
  "character" of the source is itself a string of length at most one.
  \<open>js\<close> writes an ASCII literal as such a string.
\<close>

type_synonym jchar = "16 word"
type_synonym jstring = "jchar list"

definition js :: "string \<Rightarrow> jstring" where
  "js s = map (\<lambda>c. of_nat (of_char c)) s"

definition charAt :: "jstring \<Rightarrow> nat \<Rightarrow> jstring" where
  "charAt str i = (if i < length str then [str ! i] else [])"

text \<open>
  The caller's function \<open>fn: (key: string) => string | undefined\<close>, and the
  expression \<open>fn(varName) ?? ""\<close>.
\<close>

type_synonym resolver = "jstring \<Rightarrow> jstring option"

definition or_empty :: "jstring option \<Rightarrow> jstring" where
  "or_empty v = (case v of None \<Rightarrow> [] | Some s \<Rightarrow> s)"

text \<open>
  The three subclasses of \<open>ParseError\<close> (\<open>_errors.ts\<close>). Each carries what its message
  is built from: the column, or the text after "Error parsing " and the unexpected
  character.
\<close>

datatype error =
    NoNameError nat
  | UnterminatedVariableError jstring
  | BadCharacterError jstring jstring

text \<open>How one pass through the body of the outer \<open>for\<close> loop ends.\<close>

datatype ctl = Continue | Break

text \<open>
  The effects of a run, in the order they happen: every \<open>finalString += s\<close> with a
  literal \<open>s\<close> is recorded as \<open>Text s\<close>, and every evaluation of \<open>fn(varName)\<close> as
  \<open>Call j varName\<close>, where \<open>j\<close> is the value of the cursor \<open>i\<close> at the call. The trace
  is carried beside \<open>finalString\<close> and never read by the program.
\<close>

datatype event = Text jstring | Call nat jstring

fun emitted :: "resolver \<Rightarrow> event \<Rightarrow> jstring" where
  "emitted fn (Text s) = s"
| "emitted fn (Call j name) = or_empty (fn name)"

fun calls :: "event list \<Rightarrow> (nat \<times> jstring) list" where
  "calls [] = []"
| "calls (Text s # es) = calls es"
| "calls (Call j name # es) = (j, name) # calls es"

lemma charAt_in_range: "charAt str i \<noteq> [] \<Longrightarrow> i < length str"
  by (simp add: charAt_def split: if_splits)

lemma charAt_js_in_range: "charAt str i = js (c # cs) \<Longrightarrow> i < length str"
  by (rule charAt_in_range) (simp add: js_def)

section \<open>The table-driven implementation (substitute.ts, lines 1 to 240)\<close>

text \<open>
  \<open>new Set("...")\<close> holds the one-character strings of its argument. The double quote
  and the single quote of the last row are written as \<open>CHR 0x22\<close> and \<open>CHR 0x27\<close>;
  the backslash of the source text only escapes the double quote and is not a member.
\<close>

definition CHARS_DOLLAR_BRACE :: "jstring set" where
  "CHARS_DOLLAR_BRACE = (\<lambda>c. [c]) ` set (js
     (''abcdefghijklmnopqrstuvwxyz'' @
      ''ABCDEFGHIJKLMNOPQRSTUVWXYZ'' @
      ''`0123456789-'' @
      ''~!@#$%^&*()_+'' @
      ''[]{|;:'' @ [CHR 0x27, CHR 0x22] @ '',.<>/? ''))"

definition CHARS_DOLLAR :: "jstring set" where
  "CHARS_DOLLAR = (\<lambda>c. [c]) ` set (js
     (''abcdefghijklmnopqrstuvwxyz'' @
      ''ABCDEFGHIJKLMNOPQRSTUVWXYZ'' @
      ''0123456789_''))"

definition CHARS_PERCENT :: "jstring set" where
  "CHARS_PERCENT = (\<lambda>c. [c]) ` set (js
     (''abcdefghijklmnopqrstuvwxyz'' @
      ''ABCDEFGHIJKLMNOPQRSTUVWXYZ'' @
      ''`0123456789-'' @
      ''~!@#$^&*()_+'' @
      ''[]{}|;:'' @ [CHR 0x27, CHR 0x22] @ '',.<>/? ''))"

lemma empty_notin_CHARS_DOLLAR_BRACE: "[] \<notin> CHARS_DOLLAR_BRACE"
  by (auto simp: CHARS_DOLLAR_BRACE_def)

lemma empty_notin_CHARS_DOLLAR: "[] \<notin> CHARS_DOLLAR"
  by (auto simp: CHARS_DOLLAR_def)

lemma empty_notin_CHARS_PERCENT: "[] \<notin> CHARS_PERCENT"
  by (auto simp: CHARS_PERCENT_def)

text \<open>
  The three inner \<open>for (;;)\<close> scans. Each is entered with \<open>i\<close> on the character
  before the next one to read, and returns the cursor, the output and the trace.
\<close>

function scan_dollar_brace ::
  "jstring \<Rightarrow> resolver \<Rightarrow> bool \<Rightarrow> nat \<Rightarrow> jstring \<Rightarrow> jstring \<Rightarrow> event list
    \<Rightarrow> error + (nat \<times> jstring \<times> event list)" where
  "scan_dollar_brace str fn strict i varName finalString trace =
     (let j = i + 1; char = charAt str j in
      if char \<in> CHARS_DOLLAR_BRACE then
        scan_dollar_brace str fn strict j (varName @ char) finalString trace
      else if char = js ''}'' then
        Inr (j, finalString @ or_empty (fn varName), trace @ [Call j varName])
      else if strict then
        (if char = [] then Inl (UnterminatedVariableError (js ''${'' @ varName))
         else Inl (BadCharacterError (js ''${'' @ varName) char))
      else Inr (j, finalString @ js ''${'' @ varName @ char,
                trace @ [Text (js ''${'' @ varName @ char)]))"
  by pat_completeness auto
termination
proof (relation "measure (\<lambda>(str, fn, strict, i, rest). length str - i)")
  show "wf (measure (\<lambda>(str, fn, strict, i, rest). length str - i))" by simp
next
  fix str :: jstring and fn :: resolver and strict :: bool and i :: nat
    and varName finalString :: jstring and trace :: "event list" and j char
  assume "j = i + 1" "char = charAt str j" "char \<in> CHARS_DOLLAR_BRACE"
  then have "charAt str (i + 1) \<noteq> []"
    using empty_notin_CHARS_DOLLAR_BRACE by auto
  then have "i + 1 < length str" by (rule charAt_in_range)
  then show "((str, fn, strict, j, varName @ char, finalString, trace),
              (str, fn, strict, i, varName, finalString, trace))
             \<in> measure (\<lambda>(str, fn, strict, i, rest). length str - i)"
    using \<open>j = i + 1\<close> by simp
qed

function scan_dollar ::
  "jstring \<Rightarrow> resolver \<Rightarrow> nat \<Rightarrow> jstring \<Rightarrow> jstring \<Rightarrow> event list
    \<Rightarrow> nat \<times> jstring \<times> event list" where
  "scan_dollar str fn i varName finalString trace =
     (let j = i + 1; char = charAt str j in
      if char \<in> CHARS_DOLLAR then
        scan_dollar str fn j (varName @ char) finalString trace
      else if varName = [] then
        (j, finalString @ js ''$'' @ char, trace @ [Text (js ''$'' @ char)])
      else (j - 1, finalString @ or_empty (fn varName), trace @ [Call j varName]))"
  by pat_completeness auto
termination
proof (relation "measure (\<lambda>(str, fn, i, rest). length str - i)")
  show "wf (measure (\<lambda>(str, fn, i, rest). length str - i))" by simp
next
  fix str :: jstring and fn :: resolver and i :: nat
    and varName finalString :: jstring and trace :: "event list" and j char
  assume "j = i + 1" "char = charAt str j" "char \<in> CHARS_DOLLAR"
  then have "charAt str (i + 1) \<noteq> []"
    using empty_notin_CHARS_DOLLAR by auto
  then have "i + 1 < length str" by (rule charAt_in_range)
  then show "((str, fn, j, varName @ char, finalString, trace),
              (str, fn, i, varName, finalString, trace))
             \<in> measure (\<lambda>(str, fn, i, rest). length str - i)"
    using \<open>j = i + 1\<close> by simp
qed

function scan_percent ::
  "jstring \<Rightarrow> resolver \<Rightarrow> bool \<Rightarrow> nat \<Rightarrow> jstring \<Rightarrow> jstring \<Rightarrow> event list
    \<Rightarrow> error + (nat \<times> jstring \<times> event list)" where
  "scan_percent str fn strict i varName finalString trace =
     (let j = i + 1; char = charAt str j in
      if char \<in> CHARS_PERCENT then
        scan_percent str fn strict j (varName @ char) finalString trace
      else if char = js ''%'' then
        Inr (j, finalString @ or_empty (fn varName), trace @ [Call j varName])
      else if strict then
        (if char = [] then Inl (UnterminatedVariableError (js ''%'' @ varName))
         else Inl (BadCharacterError (js ''%'' @ varName) char))
      else Inr (j, finalString @ js ''%'' @ varName @ char,
                trace @ [Text (js ''%'' @ varName @ char)]))"
  by pat_completeness auto
termination
proof (relation "measure (\<lambda>(str, fn, strict, i, rest). length str - i)")
  show "wf (measure (\<lambda>(str, fn, strict, i, rest). length str - i))" by simp
next
  fix str :: jstring and fn :: resolver and strict :: bool and i :: nat
    and varName finalString :: jstring and trace :: "event list" and j char
  assume "j = i + 1" "char = charAt str j" "char \<in> CHARS_PERCENT"
  then have "charAt str (i + 1) \<noteq> []"
    using empty_notin_CHARS_PERCENT by auto
  then have "i + 1 < length str" by (rule charAt_in_range)
  then show "((str, fn, strict, j, varName @ char, finalString, trace),
              (str, fn, strict, i, varName, finalString, trace))
             \<in> measure (\<lambda>(str, fn, strict, i, rest). length str - i)"
    using \<open>j = i + 1\<close> by simp
qed

declare scan_dollar_brace.simps [simp del]
declare scan_dollar.simps [simp del]
declare scan_percent.simps [simp del]

text \<open>The scans with the \<open>let\<close> unfolded, one step at a time.\<close>

lemma scan_dollar_brace_step:
  "scan_dollar_brace str fn strict i varName finalString trace =
     (if charAt str (i + 1) \<in> CHARS_DOLLAR_BRACE then
        scan_dollar_brace str fn strict (i + 1) (varName @ charAt str (i + 1)) finalString trace
      else if charAt str (i + 1) = js ''}'' then
        Inr (i + 1, finalString @ or_empty (fn varName), trace @ [Call (i + 1) varName])
      else if strict then
        (if charAt str (i + 1) = [] then Inl (UnterminatedVariableError (js ''${'' @ varName))
         else Inl (BadCharacterError (js ''${'' @ varName) (charAt str (i + 1))))
      else Inr (i + 1, finalString @ js ''${'' @ varName @ charAt str (i + 1),
                trace @ [Text (js ''${'' @ varName @ charAt str (i + 1))]))"
  by (subst scan_dollar_brace.simps) (simp add: Let_def)

lemma scan_dollar_step:
  "scan_dollar str fn i varName finalString trace =
     (if charAt str (i + 1) \<in> CHARS_DOLLAR then
        scan_dollar str fn (i + 1) (varName @ charAt str (i + 1)) finalString trace
      else if varName = [] then
        (i + 1, finalString @ js ''$'' @ charAt str (i + 1),
         trace @ [Text (js ''$'' @ charAt str (i + 1))])
      else (i, finalString @ or_empty (fn varName), trace @ [Call (i + 1) varName]))"
  by (subst scan_dollar.simps) (simp add: Let_def)

lemma scan_percent_step:
  "scan_percent str fn strict i varName finalString trace =
     (if charAt str (i + 1) \<in> CHARS_PERCENT then
        scan_percent str fn strict (i + 1) (varName @ charAt str (i + 1)) finalString trace
      else if charAt str (i + 1) = js ''%'' then
        Inr (i + 1, finalString @ or_empty (fn varName), trace @ [Call (i + 1) varName])
      else if strict then
        (if charAt str (i + 1) = [] then Inl (UnterminatedVariableError (js ''%'' @ varName))
         else Inl (BadCharacterError (js ''%'' @ varName) (charAt str (i + 1))))
      else Inr (i + 1, finalString @ js ''%'' @ varName @ charAt str (i + 1),
                trace @ [Text (js ''%'' @ varName @ charAt str (i + 1))]))"
  by (subst scan_percent.simps) (simp add: Let_def)

text \<open>
  One pass through the body of the outer loop, entered with \<open>i < str.length\<close>. The
  result holds the value of \<open>i\<close> when the body ends, before the loop's own \<open>i++\<close>.
  In the \<open>${}\<close> branch the \<open>break\<close> has no inner loop around it, so it leaves the
  outer \<open>for\<close>.
\<close>

definition body ::
  "jstring \<Rightarrow> resolver \<Rightarrow> bool \<Rightarrow> bool \<Rightarrow> bool \<Rightarrow> nat \<Rightarrow> jstring \<Rightarrow> event list
    \<Rightarrow> error + (ctl \<times> nat \<times> jstring \<times> event list)" where
  "body str fn percent dollar strict i finalString trace =
     (let char = charAt str i in
      if dollar \<and> char = js ''$'' then
        if charAt str (i + 1) = js ''$'' then
          Inr (Continue, i + 1, finalString @ js ''$'', trace @ [Text (js ''$'')])
        else if charAt str (i + 1) = js ''{'' then
          (let i = i + 1 in
           if charAt str (i + 1) = js ''}'' then
             if strict then Inl (NoNameError i)
             else Inr (Break, i + 1, finalString @ js ''${}'', trace @ [Text (js ''${}'')])
           else
             map_sum id (Pair Continue)
               (scan_dollar_brace str fn strict i [] finalString trace))
        else Inr (Continue, scan_dollar str fn i [] finalString trace)
      else if percent \<and> char = js ''%'' then
        if charAt str (i + 1) = js ''%'' then
          Inr (Continue, i + 1, finalString @ js ''%'', trace @ [Text (js ''%'')])
        else
          map_sum id (Pair Continue) (scan_percent str fn strict i [] finalString trace)
      else Inr (Continue, i, finalString @ char, trace @ [Text char]))"

text \<open>Where each scan leaves the cursor.\<close>

lemma scan_dollar_brace_cursor:
  "scan_dollar_brace str fn strict i varName finalString trace = Inr (i', out, tr)
    \<Longrightarrow> i < i' \<and> i' \<le> max (length str) (i + 1)"
proof (induction str fn strict i varName finalString trace rule: scan_dollar_brace.induct)
  case (1 str fn strict i varName finalString trace)
  show ?case
  proof (cases "charAt str (i + 1) \<in> CHARS_DOLLAR_BRACE")
    case True
    then have "charAt str (i + 1) \<noteq> []"
      using empty_notin_CHARS_DOLLAR_BRACE by auto
    then have "i + 1 < length str" by (rule charAt_in_range)
    moreover have "i + 1 < i' \<and> i' \<le> max (length str) (i + 1 + 1)"
      using "1.IH" [OF refl refl True] "1.prems" True
      by (simp add: scan_dollar_brace_step [of str fn strict i])
    ultimately show ?thesis by auto
  next
    case False
    then show ?thesis
      using "1.prems"
      by (auto simp: scan_dollar_brace_step [of str fn strict i] split: if_splits)
  qed
qed

lemma scan_dollar_cursor:
  "scan_dollar str fn i varName finalString trace = (i', out, tr)
    \<Longrightarrow> i \<le> i' \<and> (varName = [] \<longrightarrow> i < i') \<and> i' \<le> max (length str) (i + 1)"
proof (induction str fn i varName finalString trace rule: scan_dollar.induct)
  case (1 str fn i varName finalString trace)
  show ?case
  proof (cases "charAt str (i + 1) \<in> CHARS_DOLLAR")
    case True
    then have ne: "charAt str (i + 1) \<noteq> []"
      using empty_notin_CHARS_DOLLAR by auto
    then have "i + 1 < length str" by (rule charAt_in_range)
    moreover have "i + 1 \<le> i' \<and> i' \<le> max (length str) (i + 1 + 1)"
      using "1.IH" [OF refl refl True] "1.prems" True
      by (simp add: scan_dollar_step [of str fn i])
    ultimately show ?thesis by auto
  next
    case False
    then show ?thesis
      using "1.prems"
      by (auto simp: scan_dollar_step [of str fn i] split: if_splits)
  qed
qed

lemma scan_percent_cursor:
  "scan_percent str fn strict i varName finalString trace = Inr (i', out, tr)
    \<Longrightarrow> i < i' \<and> i' \<le> max (length str) (i + 1)"
proof (induction str fn strict i varName finalString trace rule: scan_percent.induct)
  case (1 str fn strict i varName finalString trace)
  show ?case
  proof (cases "charAt str (i + 1) \<in> CHARS_PERCENT")
    case True
    then have "charAt str (i + 1) \<noteq> []"
      using empty_notin_CHARS_PERCENT by auto
    then have "i + 1 < length str" by (rule charAt_in_range)
    moreover have "i + 1 < i' \<and> i' \<le> max (length str) (i + 1 + 1)"
      using "1.IH" [OF refl refl True] "1.prems" True
      by (simp add: scan_percent_step [of str fn strict i])
    ultimately show ?thesis by auto
  next
    case False
    then show ?thesis
      using "1.prems"
      by (auto simp: scan_percent_step [of str fn strict i] split: if_splits)
  qed
qed

text \<open>The seven branches of the body, as a case distinction and as equations.\<close>

lemma body_cases [case_names esc_dollar empty_brace brace bare esc_percent percent literal]:
  assumes "\<lbrakk>dollar; charAt str i = js ''$''; charAt str (i + 1) = js ''$''\<rbrakk> \<Longrightarrow> P"
    and "\<lbrakk>dollar; charAt str i = js ''$''; charAt str (i + 1) = js ''{'';
          charAt str (i + 2) = js ''}''\<rbrakk> \<Longrightarrow> P"
    and "\<lbrakk>dollar; charAt str i = js ''$''; charAt str (i + 1) = js ''{'';
          charAt str (i + 2) \<noteq> js ''}''\<rbrakk> \<Longrightarrow> P"
    and "\<lbrakk>dollar; charAt str i = js ''$''; charAt str (i + 1) \<noteq> js ''$'';
          charAt str (i + 1) \<noteq> js ''{''\<rbrakk> \<Longrightarrow> P"
    and "\<lbrakk>charAt str i = js ''%''; percent; charAt str (i + 1) = js ''%''\<rbrakk> \<Longrightarrow> P"
    and "\<lbrakk>charAt str i = js ''%''; percent; charAt str (i + 1) \<noteq> js ''%''\<rbrakk> \<Longrightarrow> P"
    and "\<lbrakk>\<not> (dollar \<and> charAt str i = js ''$''); \<not> (percent \<and> charAt str i = js ''%'')\<rbrakk>
          \<Longrightarrow> P"
  shows P
  using assms by (cases "charAt str i = js ''$''") (auto simp: js_def)

lemma body_esc_dollar:
  "\<lbrakk>dollar; charAt str i = js ''$''; charAt str (i + 1) = js ''$''\<rbrakk>
    \<Longrightarrow> body str fn percent dollar strict i finalString trace
        = Inr (Continue, i + 1, finalString @ js ''$'', trace @ [Text (js ''$'')])"
  by (simp add: body_def Let_def)

lemma body_empty_brace:
  "\<lbrakk>dollar; charAt str i = js ''$''; charAt str (i + 1) = js ''{'';
    charAt str (i + 2) = js ''}''\<rbrakk>
    \<Longrightarrow> body str fn percent dollar strict i finalString trace
        = (if strict then Inl (NoNameError (i + 1))
           else Inr (Break, i + 2, finalString @ js ''${}'', trace @ [Text (js ''${}'')]))"
  by (simp add: body_def Let_def js_def)

lemma body_brace:
  "\<lbrakk>dollar; charAt str i = js ''$''; charAt str (i + 1) = js ''{'';
    charAt str (i + 2) \<noteq> js ''}''\<rbrakk>
    \<Longrightarrow> body str fn percent dollar strict i finalString trace
        = map_sum id (Pair Continue)
            (scan_dollar_brace str fn strict (i + 1) [] finalString trace)"
  by (simp add: body_def Let_def js_def)

lemma body_bare:
  "\<lbrakk>dollar; charAt str i = js ''$''; charAt str (i + 1) \<noteq> js ''$'';
    charAt str (i + 1) \<noteq> js ''{''\<rbrakk>
    \<Longrightarrow> body str fn percent dollar strict i finalString trace
        = Inr (Continue, scan_dollar str fn i [] finalString trace)"
  by (simp add: body_def Let_def)

lemma body_esc_percent:
  "\<lbrakk>charAt str i = js ''%''; percent; charAt str (i + 1) = js ''%''\<rbrakk>
    \<Longrightarrow> body str fn percent dollar strict i finalString trace
        = Inr (Continue, i + 1, finalString @ js ''%'', trace @ [Text (js ''%'')])"
  by (simp add: body_def Let_def js_def)

lemma body_percent:
  "\<lbrakk>charAt str i = js ''%''; percent; charAt str (i + 1) \<noteq> js ''%''\<rbrakk>
    \<Longrightarrow> body str fn percent dollar strict i finalString trace
        = map_sum id (Pair Continue) (scan_percent str fn strict i [] finalString trace)"
  by (simp add: body_def Let_def js_def)

lemma body_literal:
  "\<lbrakk>\<not> (dollar \<and> charAt str i = js ''$''); \<not> (percent \<and> charAt str i = js ''%'')\<rbrakk>
    \<Longrightarrow> body str fn percent dollar strict i finalString trace
        = Inr (Continue, i, finalString @ charAt str i, trace @ [Text (charAt str i)])"
  by (auto simp: body_def Let_def)

lemma body_cursor:
  assumes "i < length str"
    and "body str fn percent dollar strict i finalString trace = Inr (c, i', out, tr)"
  shows "i \<le> i' \<and> i' \<le> length str"
proof (cases rule: body_cases [where dollar = dollar and str = str and i = i and percent = percent])
  case esc_dollar
  have "i + 1 < length str"
    using esc_dollar(3) by (rule charAt_js_in_range)
  then show ?thesis
    using assms(2) esc_dollar by (auto simp: body_esc_dollar)
next
  case empty_brace
  have "i + 2 < length str"
    using empty_brace(4) by (rule charAt_js_in_range)
  then show ?thesis
    using assms(2) empty_brace by (auto simp: body_empty_brace split: if_splits)
next
  case brace
  then obtain r where "scan_dollar_brace str fn strict (i + 1) [] finalString trace = Inr r"
    and "r = (i', out, tr)"
    using assms(2) by (cases "scan_dollar_brace str fn strict (i + 1) [] finalString trace")
      (auto simp: body_brace)
  then have "i + 1 < i' \<and> i' \<le> max (length str) (i + 1 + 1)"
    using scan_dollar_brace_cursor by blast
  moreover have "i + 1 < length str"
    using brace(3) by (rule charAt_js_in_range)
  ultimately show ?thesis by auto
next
  case bare
  then have "scan_dollar str fn i [] finalString trace = (i', out, tr)"
    using assms(2) by (auto simp: body_bare)
  then show ?thesis
    using scan_dollar_cursor [of str fn i "[]" finalString trace i' out tr] assms(1)
    by auto
next
  case esc_percent
  have "i + 1 < length str"
    using esc_percent(3) by (rule charAt_js_in_range)
  then show ?thesis
    using assms(2) esc_percent by (auto simp: body_esc_percent)
next
  case percent
  then obtain r where "scan_percent str fn strict i [] finalString trace = Inr r"
    and "r = (i', out, tr)"
    using assms(2) by (cases "scan_percent str fn strict i [] finalString trace")
      (auto simp: body_percent)
  then show ?thesis
    using scan_percent_cursor [of str fn strict i "[]" finalString trace i' out tr] assms(1)
    by auto
next
  case literal
  then show ?thesis
    using assms by (auto simp: body_literal)
qed

text \<open>
  The outer loop \<open>for (let i = 0; i < str.length; i++)\<close>, entered at \<open>i\<close> with the
  output and the trace so far, and the function itself. The options default to
  \<open>true\<close>, so \<open>substitute(str, fn)\<close> is \<open>substitute str fn True True True\<close>.
  \<open>substitute_run\<close> keeps the trace beside the returned string.
\<close>

function loop ::
  "jstring \<Rightarrow> resolver \<Rightarrow> bool \<Rightarrow> bool \<Rightarrow> bool \<Rightarrow> nat \<Rightarrow> jstring \<Rightarrow> event list
    \<Rightarrow> error + (jstring \<times> event list)" where
  "loop str fn percent dollar strict i finalString trace =
     (if i < length str then
        (case body str fn percent dollar strict i finalString trace of
           Inl e \<Rightarrow> Inl e
         | Inr (Break, i', finalString', trace') \<Rightarrow> Inr (finalString', trace')
         | Inr (Continue, i', finalString', trace') \<Rightarrow>
             loop str fn percent dollar strict (i' + 1) finalString' trace')
      else Inr (finalString, trace))"
  by pat_completeness auto
termination
proof (relation "measure (\<lambda>(str, fn, percent, dollar, strict, i, rest). length str - i)")
  show "wf (measure (\<lambda>(str, fn, percent, dollar, strict, i, rest). length str - i))"
    by simp
next
  fix str :: jstring and fn :: resolver and percent dollar strict :: bool and i :: nat
    and finalString :: jstring and trace :: "event list"
    and r c p i' q finalString' trace'
  assume "i < length str"
    and "body str fn percent dollar strict i finalString trace = Inr r"
    and "(c, p) = r" "c = Continue" "(i', q) = p" "(finalString', trace') = q"
  then have "body str fn percent dollar strict i finalString trace
      = Inr (Continue, i', finalString', trace')"
    by auto
  then have "i \<le> i'"
    using body_cursor [OF \<open>i < length str\<close>] by blast
  then have "length str - (i' + 1) < length str - i"
    using \<open>i < length str\<close> by arith
  then show "((str, fn, percent, dollar, strict, i' + 1, finalString', trace'),
              (str, fn, percent, dollar, strict, i, finalString, trace))
             \<in> measure (\<lambda>(str, fn, percent, dollar, strict, i, rest). length str - i)"
    by simp
qed

declare loop.simps [simp del]

definition substitute_run ::
  "jstring \<Rightarrow> resolver \<Rightarrow> bool \<Rightarrow> bool \<Rightarrow> bool \<Rightarrow> error + (jstring \<times> event list)" where
  "substitute_run str fn percent dollar strict =
     loop str fn percent dollar strict 0 [] []"

definition substitute ::
  "jstring \<Rightarrow> resolver \<Rightarrow> bool \<Rightarrow> bool \<Rightarrow> bool \<Rightarrow> error + jstring" where
  "substitute str fn percent dollar strict =
     map_sum id fst (substitute_run str fn percent dollar strict)"

section \<open>The exclusion-based implementation (substitute.ts, lines 242 to 438)\<close>

text \<open>
  \<open>new Set(["", "=", "\x00"])\<close>, and the test \<open>/[A-Za-z0-9_]/.test(char)\<close>, which
  holds when some code unit of \<open>char\<close> is an ASCII letter, a digit or the underscore.
\<close>

definition invalidCharacters :: "jstring set" where
  "invalidCharacters = {[], js ''='', [0]}"

definition word_unit :: "jchar \<Rightarrow> bool" where
  "word_unit c = ((0x41 \<le> c \<and> c \<le> 0x5A) \<or> (0x61 \<le> c \<and> c \<le> 0x7A)
                  \<or> (0x30 \<le> c \<and> c \<le> 0x39) \<or> c = 0x5F)"

definition regex_word_test :: "jstring \<Rightarrow> bool" where
  "regex_word_test char = list_ex word_unit char"

lemma empty_in_invalidCharacters: "[] \<in> invalidCharacters"
  by (simp add: invalidCharacters_def)

lemma regex_word_test_empty: "\<not> regex_word_test []"
  by (simp add: regex_word_test_def)

text \<open>
  The three inner \<open>for (;;)\<close> scans. Each is entered with \<open>i\<close> on the character
  before the next one to read, and returns the cursor, the output and the trace.
\<close>

function scan_dollar_brace_excl ::
  "jstring \<Rightarrow> resolver \<Rightarrow> bool \<Rightarrow> nat \<Rightarrow> jstring \<Rightarrow> jstring \<Rightarrow> event list
    \<Rightarrow> error + (nat \<times> jstring \<times> event list)" where
  "scan_dollar_brace_excl str fn strict i varName finalString trace =
     (let j = i + 1; char = charAt str j in
      if char \<noteq> js ''}'' \<and> char \<notin> invalidCharacters then
        scan_dollar_brace_excl str fn strict j (varName @ char) finalString trace
      else if char = js ''}'' then
        Inr (j, finalString @ or_empty (fn varName), trace @ [Call j varName])
      else if strict then
        (if char = [] then Inl (UnterminatedVariableError (js ''${'' @ varName))
         else Inl (BadCharacterError (js ''${'' @ varName) char))
      else Inr (j, finalString @ js ''${'' @ varName @ char,
                trace @ [Text (js ''${'' @ varName @ char)]))"
  by pat_completeness auto
termination
proof (relation "measure (\<lambda>(str, fn, strict, i, rest). length str - i)")
  show "wf (measure (\<lambda>(str, fn, strict, i, rest). length str - i))" by simp
next
  fix str :: jstring and fn :: resolver and strict :: bool and i :: nat
    and varName finalString :: jstring and trace :: "event list" and j char
  assume "j = i + 1" "char = charAt str j" "char \<noteq> js ''}'' \<and> char \<notin> invalidCharacters"
  then have "charAt str (i + 1) \<noteq> []"
    using empty_in_invalidCharacters by auto
  then have "i + 1 < length str" by (rule charAt_in_range)
  then show "((str, fn, strict, j, varName @ char, finalString, trace),
              (str, fn, strict, i, varName, finalString, trace))
             \<in> measure (\<lambda>(str, fn, strict, i, rest). length str - i)"
    using \<open>j = i + 1\<close> by simp
qed

function scan_dollar_excl ::
  "jstring \<Rightarrow> resolver \<Rightarrow> nat \<Rightarrow> jstring \<Rightarrow> jstring \<Rightarrow> event list
    \<Rightarrow> nat \<times> jstring \<times> event list" where
  "scan_dollar_excl str fn i varName finalString trace =
     (let j = i + 1; char = charAt str j in
      if regex_word_test char then
        scan_dollar_excl str fn j (varName @ char) finalString trace
      else if varName = [] then
        (j, finalString @ js ''$'' @ char, trace @ [Text (js ''$'' @ char)])
      else (j - 1, finalString @ or_empty (fn varName), trace @ [Call j varName]))"
  by pat_completeness auto
termination
proof (relation "measure (\<lambda>(str, fn, i, rest). length str - i)")
  show "wf (measure (\<lambda>(str, fn, i, rest). length str - i))" by simp
next
  fix str :: jstring and fn :: resolver and i :: nat
    and varName finalString :: jstring and trace :: "event list" and j char
  assume "j = i + 1" "char = charAt str j" "regex_word_test char"
  then have "charAt str (i + 1) \<noteq> []"
    using regex_word_test_empty by auto
  then have "i + 1 < length str" by (rule charAt_in_range)
  then show "((str, fn, j, varName @ char, finalString, trace),
              (str, fn, i, varName, finalString, trace))
             \<in> measure (\<lambda>(str, fn, i, rest). length str - i)"
    using \<open>j = i + 1\<close> by simp
qed

function scan_percent_excl ::
  "jstring \<Rightarrow> resolver \<Rightarrow> bool \<Rightarrow> nat \<Rightarrow> jstring \<Rightarrow> jstring \<Rightarrow> event list
    \<Rightarrow> error + (nat \<times> jstring \<times> event list)" where
  "scan_percent_excl str fn strict i varName finalString trace =
     (let j = i + 1; char = charAt str j in
      if char \<noteq> js ''%'' \<and> char \<notin> invalidCharacters then
        scan_percent_excl str fn strict j (varName @ char) finalString trace
      else if char = js ''%'' then
        Inr (j, finalString @ or_empty (fn varName), trace @ [Call j varName])
      else if strict then
        (if char = [] then Inl (UnterminatedVariableError (js ''%'' @ varName))
         else Inl (BadCharacterError (js ''%'' @ varName) char))
      else Inr (j, finalString @ js ''%'' @ varName @ char,
                trace @ [Text (js ''%'' @ varName @ char)]))"
  by pat_completeness auto
termination
proof (relation "measure (\<lambda>(str, fn, strict, i, rest). length str - i)")
  show "wf (measure (\<lambda>(str, fn, strict, i, rest). length str - i))" by simp
next
  fix str :: jstring and fn :: resolver and strict :: bool and i :: nat
    and varName finalString :: jstring and trace :: "event list" and j char
  assume "j = i + 1" "char = charAt str j" "char \<noteq> js ''%'' \<and> char \<notin> invalidCharacters"
  then have "charAt str (i + 1) \<noteq> []"
    using empty_in_invalidCharacters by auto
  then have "i + 1 < length str" by (rule charAt_in_range)
  then show "((str, fn, strict, j, varName @ char, finalString, trace),
              (str, fn, strict, i, varName, finalString, trace))
             \<in> measure (\<lambda>(str, fn, strict, i, rest). length str - i)"
    using \<open>j = i + 1\<close> by simp
qed

declare scan_dollar_brace_excl.simps [simp del]
declare scan_dollar_excl.simps [simp del]
declare scan_percent_excl.simps [simp del]

text \<open>The scans with the \<open>let\<close> unfolded, one step at a time.\<close>

lemma scan_dollar_brace_excl_step:
  "scan_dollar_brace_excl str fn strict i varName finalString trace =
     (if charAt str (i + 1) \<noteq> js ''}'' \<and> charAt str (i + 1) \<notin> invalidCharacters then
        scan_dollar_brace_excl str fn strict (i + 1) (varName @ charAt str (i + 1)) finalString trace
      else if charAt str (i + 1) = js ''}'' then
        Inr (i + 1, finalString @ or_empty (fn varName), trace @ [Call (i + 1) varName])
      else if strict then
        (if charAt str (i + 1) = [] then Inl (UnterminatedVariableError (js ''${'' @ varName))
         else Inl (BadCharacterError (js ''${'' @ varName) (charAt str (i + 1))))
      else Inr (i + 1, finalString @ js ''${'' @ varName @ charAt str (i + 1),
                trace @ [Text (js ''${'' @ varName @ charAt str (i + 1))]))"
  by (subst scan_dollar_brace_excl.simps) (simp add: Let_def)

lemma scan_dollar_excl_step:
  "scan_dollar_excl str fn i varName finalString trace =
     (if regex_word_test (charAt str (i + 1)) then
        scan_dollar_excl str fn (i + 1) (varName @ charAt str (i + 1)) finalString trace
      else if varName = [] then
        (i + 1, finalString @ js ''$'' @ charAt str (i + 1),
         trace @ [Text (js ''$'' @ charAt str (i + 1))])
      else (i, finalString @ or_empty (fn varName), trace @ [Call (i + 1) varName]))"
  by (subst scan_dollar_excl.simps) (simp add: Let_def)

lemma scan_percent_excl_step:
  "scan_percent_excl str fn strict i varName finalString trace =
     (if charAt str (i + 1) \<noteq> js ''%'' \<and> charAt str (i + 1) \<notin> invalidCharacters then
        scan_percent_excl str fn strict (i + 1) (varName @ charAt str (i + 1)) finalString trace
      else if charAt str (i + 1) = js ''%'' then
        Inr (i + 1, finalString @ or_empty (fn varName), trace @ [Call (i + 1) varName])
      else if strict then
        (if charAt str (i + 1) = [] then Inl (UnterminatedVariableError (js ''%'' @ varName))
         else Inl (BadCharacterError (js ''%'' @ varName) (charAt str (i + 1))))
      else Inr (i + 1, finalString @ js ''%'' @ varName @ charAt str (i + 1),
                trace @ [Text (js ''%'' @ varName @ charAt str (i + 1))]))"
  by (subst scan_percent_excl.simps) (simp add: Let_def)

text \<open>
  One pass through the body of the outer loop, entered with \<open>i < str.length\<close>. The
  result holds the value of \<open>i\<close> when the body ends, before the loop's own \<open>i++\<close>.
  In the \<open>${}\<close> branch the \<open>break\<close> has no inner loop around it, so it leaves the
  outer \<open>for\<close>.
\<close>

definition body_excl ::
  "jstring \<Rightarrow> resolver \<Rightarrow> bool \<Rightarrow> bool \<Rightarrow> bool \<Rightarrow> nat \<Rightarrow> jstring \<Rightarrow> event list
    \<Rightarrow> error + (ctl \<times> nat \<times> jstring \<times> event list)" where
  "body_excl str fn percent dollar strict i finalString trace =
     (let char = charAt str i in
      if dollar \<and> char = js ''$'' then
        if charAt str (i + 1) = js ''$'' then
          Inr (Continue, i + 1, finalString @ js ''$'', trace @ [Text (js ''$'')])
        else if charAt str (i + 1) = js ''{'' then
          (let i = i + 1 in
           if charAt str (i + 1) = js ''}'' then
             if strict then Inl (NoNameError i)
             else Inr (Break, i + 1, finalString @ js ''${}'', trace @ [Text (js ''${}'')])
           else
             map_sum id (Pair Continue)
               (scan_dollar_brace_excl str fn strict i [] finalString trace))
        else Inr (Continue, scan_dollar_excl str fn i [] finalString trace)
      else if percent \<and> char = js ''%'' then
        if charAt str (i + 1) = js ''%'' then
          Inr (Continue, i + 1, finalString @ js ''%'', trace @ [Text (js ''%'')])
        else
          map_sum id (Pair Continue) (scan_percent_excl str fn strict i [] finalString trace)
      else Inr (Continue, i, finalString @ char, trace @ [Text char]))"

text \<open>Where each scan leaves the cursor.\<close>

lemma scan_dollar_brace_excl_cursor:
  "scan_dollar_brace_excl str fn strict i varName finalString trace = Inr (i', out, tr)
    \<Longrightarrow> i < i' \<and> i' \<le> max (length str) (i + 1)"
proof (induction str fn strict i varName finalString trace rule: scan_dollar_brace_excl.induct)
  case (1 str fn strict i varName finalString trace)
  show ?case
  proof (cases "charAt str (i + 1) \<noteq> js ''}'' \<and> charAt str (i + 1) \<notin> invalidCharacters")
    case True
    then have "charAt str (i + 1) \<noteq> []"
      using empty_in_invalidCharacters by auto
    then have "i + 1 < length str" by (rule charAt_in_range)
    moreover have "i + 1 < i' \<and> i' \<le> max (length str) (i + 1 + 1)"
      using "1.IH" [OF refl refl True] "1.prems" True
      by (simp add: scan_dollar_brace_excl_step [of str fn strict i])
    ultimately show ?thesis by auto
  next
    case False
    then show ?thesis
      using "1.prems"
      by (auto simp: scan_dollar_brace_excl_step [of str fn strict i] split: if_splits)
  qed
qed

lemma scan_dollar_excl_cursor:
  "scan_dollar_excl str fn i varName finalString trace = (i', out, tr)
    \<Longrightarrow> i \<le> i' \<and> (varName = [] \<longrightarrow> i < i') \<and> i' \<le> max (length str) (i + 1)"
proof (induction str fn i varName finalString trace rule: scan_dollar_excl.induct)
  case (1 str fn i varName finalString trace)
  show ?case
  proof (cases "regex_word_test (charAt str (i + 1))")
    case True
    then have ne: "charAt str (i + 1) \<noteq> []"
      using regex_word_test_empty by auto
    then have "i + 1 < length str" by (rule charAt_in_range)
    moreover have "i + 1 \<le> i' \<and> i' \<le> max (length str) (i + 1 + 1)"
      using "1.IH" [OF refl refl True] "1.prems" True
      by (simp add: scan_dollar_excl_step [of str fn i])
    ultimately show ?thesis by auto
  next
    case False
    then show ?thesis
      using "1.prems"
      by (auto simp: scan_dollar_excl_step [of str fn i] split: if_splits)
  qed
qed

lemma scan_percent_excl_cursor:
  "scan_percent_excl str fn strict i varName finalString trace = Inr (i', out, tr)
    \<Longrightarrow> i < i' \<and> i' \<le> max (length str) (i + 1)"
proof (induction str fn strict i varName finalString trace rule: scan_percent_excl.induct)
  case (1 str fn strict i varName finalString trace)
  show ?case
  proof (cases "charAt str (i + 1) \<noteq> js ''%'' \<and> charAt str (i + 1) \<notin> invalidCharacters")
    case True
    then have "charAt str (i + 1) \<noteq> []"
      using empty_in_invalidCharacters by auto
    then have "i + 1 < length str" by (rule charAt_in_range)
    moreover have "i + 1 < i' \<and> i' \<le> max (length str) (i + 1 + 1)"
      using "1.IH" [OF refl refl True] "1.prems" True
      by (simp add: scan_percent_excl_step [of str fn strict i])
    ultimately show ?thesis by auto
  next
    case False
    then show ?thesis
      using "1.prems"
      by (auto simp: scan_percent_excl_step [of str fn strict i] split: if_splits)
  qed
qed

text \<open>The seven branches of the body, as a case distinction and as equations.\<close>

lemma body_excl_cases [case_names esc_dollar empty_brace brace bare esc_percent percent literal]:
  assumes "\<lbrakk>dollar; charAt str i = js ''$''; charAt str (i + 1) = js ''$''\<rbrakk> \<Longrightarrow> P"
    and "\<lbrakk>dollar; charAt str i = js ''$''; charAt str (i + 1) = js ''{'';
          charAt str (i + 2) = js ''}''\<rbrakk> \<Longrightarrow> P"
    and "\<lbrakk>dollar; charAt str i = js ''$''; charAt str (i + 1) = js ''{'';
          charAt str (i + 2) \<noteq> js ''}''\<rbrakk> \<Longrightarrow> P"
    and "\<lbrakk>dollar; charAt str i = js ''$''; charAt str (i + 1) \<noteq> js ''$'';
          charAt str (i + 1) \<noteq> js ''{''\<rbrakk> \<Longrightarrow> P"
    and "\<lbrakk>charAt str i = js ''%''; percent; charAt str (i + 1) = js ''%''\<rbrakk> \<Longrightarrow> P"
    and "\<lbrakk>charAt str i = js ''%''; percent; charAt str (i + 1) \<noteq> js ''%''\<rbrakk> \<Longrightarrow> P"
    and "\<lbrakk>\<not> (dollar \<and> charAt str i = js ''$''); \<not> (percent \<and> charAt str i = js ''%'')\<rbrakk>
          \<Longrightarrow> P"
  shows P
  using assms by (cases "charAt str i = js ''$''") (auto simp: js_def)

lemma body_excl_esc_dollar:
  "\<lbrakk>dollar; charAt str i = js ''$''; charAt str (i + 1) = js ''$''\<rbrakk>
    \<Longrightarrow> body_excl str fn percent dollar strict i finalString trace
        = Inr (Continue, i + 1, finalString @ js ''$'', trace @ [Text (js ''$'')])"
  by (simp add: body_excl_def Let_def)

lemma body_excl_empty_brace:
  "\<lbrakk>dollar; charAt str i = js ''$''; charAt str (i + 1) = js ''{'';
    charAt str (i + 2) = js ''}''\<rbrakk>
    \<Longrightarrow> body_excl str fn percent dollar strict i finalString trace
        = (if strict then Inl (NoNameError (i + 1))
           else Inr (Break, i + 2, finalString @ js ''${}'', trace @ [Text (js ''${}'')]))"
  by (simp add: body_excl_def Let_def js_def)

lemma body_excl_brace:
  "\<lbrakk>dollar; charAt str i = js ''$''; charAt str (i + 1) = js ''{'';
    charAt str (i + 2) \<noteq> js ''}''\<rbrakk>
    \<Longrightarrow> body_excl str fn percent dollar strict i finalString trace
        = map_sum id (Pair Continue)
            (scan_dollar_brace_excl str fn strict (i + 1) [] finalString trace)"
  by (simp add: body_excl_def Let_def js_def)

lemma body_excl_bare:
  "\<lbrakk>dollar; charAt str i = js ''$''; charAt str (i + 1) \<noteq> js ''$'';
    charAt str (i + 1) \<noteq> js ''{''\<rbrakk>
    \<Longrightarrow> body_excl str fn percent dollar strict i finalString trace
        = Inr (Continue, scan_dollar_excl str fn i [] finalString trace)"
  by (simp add: body_excl_def Let_def)

lemma body_excl_esc_percent:
  "\<lbrakk>charAt str i = js ''%''; percent; charAt str (i + 1) = js ''%''\<rbrakk>
    \<Longrightarrow> body_excl str fn percent dollar strict i finalString trace
        = Inr (Continue, i + 1, finalString @ js ''%'', trace @ [Text (js ''%'')])"
  by (simp add: body_excl_def Let_def js_def)

lemma body_excl_percent:
  "\<lbrakk>charAt str i = js ''%''; percent; charAt str (i + 1) \<noteq> js ''%''\<rbrakk>
    \<Longrightarrow> body_excl str fn percent dollar strict i finalString trace
        = map_sum id (Pair Continue) (scan_percent_excl str fn strict i [] finalString trace)"
  by (simp add: body_excl_def Let_def js_def)

lemma body_excl_literal:
  "\<lbrakk>\<not> (dollar \<and> charAt str i = js ''$''); \<not> (percent \<and> charAt str i = js ''%'')\<rbrakk>
    \<Longrightarrow> body_excl str fn percent dollar strict i finalString trace
        = Inr (Continue, i, finalString @ charAt str i, trace @ [Text (charAt str i)])"
  by (auto simp: body_excl_def Let_def)

lemma body_excl_cursor:
  assumes "i < length str"
    and "body_excl str fn percent dollar strict i finalString trace = Inr (c, i', out, tr)"
  shows "i \<le> i' \<and> i' \<le> length str"
proof (cases rule: body_excl_cases [where dollar = dollar and str = str and i = i and percent = percent])
  case esc_dollar
  have "i + 1 < length str"
    using esc_dollar(3) by (rule charAt_js_in_range)
  then show ?thesis
    using assms(2) esc_dollar by (auto simp: body_excl_esc_dollar)
next
  case empty_brace
  have "i + 2 < length str"
    using empty_brace(4) by (rule charAt_js_in_range)
  then show ?thesis
    using assms(2) empty_brace by (auto simp: body_excl_empty_brace split: if_splits)
next
  case brace
  then obtain r where "scan_dollar_brace_excl str fn strict (i + 1) [] finalString trace = Inr r"
    and "r = (i', out, tr)"
    using assms(2) by (cases "scan_dollar_brace_excl str fn strict (i + 1) [] finalString trace")
      (auto simp: body_excl_brace)
  then have "i + 1 < i' \<and> i' \<le> max (length str) (i + 1 + 1)"
    using scan_dollar_brace_excl_cursor by blast
  moreover have "i + 1 < length str"
    using brace(3) by (rule charAt_js_in_range)
  ultimately show ?thesis by auto
next
  case bare
  then have "scan_dollar_excl str fn i [] finalString trace = (i', out, tr)"
    using assms(2) by (auto simp: body_excl_bare)
  then show ?thesis
    using scan_dollar_excl_cursor [of str fn i "[]" finalString trace i' out tr] assms(1)
    by auto
next
  case esc_percent
  have "i + 1 < length str"
    using esc_percent(3) by (rule charAt_js_in_range)
  then show ?thesis
    using assms(2) esc_percent by (auto simp: body_excl_esc_percent)
next
  case percent
  then obtain r where "scan_percent_excl str fn strict i [] finalString trace = Inr r"
    and "r = (i', out, tr)"
    using assms(2) by (cases "scan_percent_excl str fn strict i [] finalString trace")
      (auto simp: body_excl_percent)
  then show ?thesis
    using scan_percent_excl_cursor [of str fn strict i "[]" finalString trace i' out tr] assms(1)
    by auto
next
  case literal
  then show ?thesis
    using assms by (auto simp: body_excl_literal)
qed

text \<open>
  The outer loop \<open>for (let i = 0; i < str.length; i++)\<close>, entered at \<open>i\<close> with the
  output and the trace so far, and the function itself. The options default to
  \<open>true\<close>, so \<open>substitute(str, fn)\<close> is \<open>substitute_excl str fn True True True\<close>.
  \<open>substitute_excl_run\<close> keeps the trace beside the returned string.
\<close>

function loop_excl ::
  "jstring \<Rightarrow> resolver \<Rightarrow> bool \<Rightarrow> bool \<Rightarrow> bool \<Rightarrow> nat \<Rightarrow> jstring \<Rightarrow> event list
    \<Rightarrow> error + (jstring \<times> event list)" where
  "loop_excl str fn percent dollar strict i finalString trace =
     (if i < length str then
        (case body_excl str fn percent dollar strict i finalString trace of
           Inl e \<Rightarrow> Inl e
         | Inr (Break, i', finalString', trace') \<Rightarrow> Inr (finalString', trace')
         | Inr (Continue, i', finalString', trace') \<Rightarrow>
             loop_excl str fn percent dollar strict (i' + 1) finalString' trace')
      else Inr (finalString, trace))"
  by pat_completeness auto
termination
proof (relation "measure (\<lambda>(str, fn, percent, dollar, strict, i, rest). length str - i)")
  show "wf (measure (\<lambda>(str, fn, percent, dollar, strict, i, rest). length str - i))"
    by simp
next
  fix str :: jstring and fn :: resolver and percent dollar strict :: bool and i :: nat
    and finalString :: jstring and trace :: "event list"
    and r c p i' q finalString' trace'
  assume "i < length str"
    and "body_excl str fn percent dollar strict i finalString trace = Inr r"
    and "(c, p) = r" "c = Continue" "(i', q) = p" "(finalString', trace') = q"
  then have "body_excl str fn percent dollar strict i finalString trace
      = Inr (Continue, i', finalString', trace')"
    by auto
  then have "i \<le> i'"
    using body_excl_cursor [OF \<open>i < length str\<close>] by blast
  then have "length str - (i' + 1) < length str - i"
    using \<open>i < length str\<close> by arith
  then show "((str, fn, percent, dollar, strict, i' + 1, finalString', trace'),
              (str, fn, percent, dollar, strict, i, finalString, trace))
             \<in> measure (\<lambda>(str, fn, percent, dollar, strict, i, rest). length str - i)"
    by simp
qed

declare loop_excl.simps [simp del]

definition substitute_excl_run ::
  "jstring \<Rightarrow> resolver \<Rightarrow> bool \<Rightarrow> bool \<Rightarrow> bool \<Rightarrow> error + (jstring \<times> event list)" where
  "substitute_excl_run str fn percent dollar strict =
     loop_excl str fn percent dollar strict 0 [] []"

definition substitute_excl ::
  "jstring \<Rightarrow> resolver \<Rightarrow> bool \<Rightarrow> bool \<Rightarrow> bool \<Rightarrow> error + jstring" where
  "substitute_excl str fn percent dollar strict =
     map_sum id fst (substitute_excl_run str fn percent dollar strict)"

section \<open>Notions used in the statements\<close>

text \<open>The printable ASCII characters, by code unit: \<open>0x20\<close> (space) to \<open>0x7E\<close>.\<close>

definition printable_ascii :: "jchar \<Rightarrow> bool" where
  "printable_ascii c = (0x20 \<le> c \<and> c \<le> 0x7E)"

text \<open>
  \<open>slice str a b\<close>: the characters of \<open>str\<close> from index \<open>a\<close> up to, not including,
  index \<open>b\<close>, as \<open>str.slice(a, b)\<close> gives them.
\<close>

definition slice :: "jstring \<Rightarrow> nat \<Rightarrow> nat \<Rightarrow> jstring" where
  "slice str a b = take (b - a) (drop a str)"

text \<open>\<open>has_char str char\<close>: some position of \<open>str\<close> holds the one-unit string \<open>char\<close>.\<close>

definition has_char :: "jstring \<Rightarrow> jstring \<Rightarrow> bool" where
  "has_char str char = (char \<in> (\<lambda>c. [c]) ` set str)"

text \<open>
  The outer loop with a bound on the number of passes: \<open>None\<close> when \<open>n\<close> passes were
  not enough to leave the loop.
\<close>

fun loop_fuel ::
  "nat \<Rightarrow> jstring \<Rightarrow> resolver \<Rightarrow> bool \<Rightarrow> bool \<Rightarrow> bool \<Rightarrow> nat \<Rightarrow> jstring \<Rightarrow> event list
    \<Rightarrow> (error + (jstring \<times> event list)) option" where
  "loop_fuel n str fn percent dollar strict i finalString trace =
     (if i < length str then
        (case n of
           0 \<Rightarrow> None
         | Suc m \<Rightarrow>
             (case body str fn percent dollar strict i finalString trace of
                Inl e \<Rightarrow> Some (Inl e)
              | Inr (Break, i', finalString', trace') \<Rightarrow> Some (Inr (finalString', trace'))
              | Inr (Continue, i', finalString', trace') \<Rightarrow>
                  loop_fuel m str fn percent dollar strict (i' + 1) finalString' trace'))
      else Some (Inr (finalString, trace)))"

declare loop_fuel.simps [simp del]

text \<open>Rendering: the output is the concatenation of what each event emitted.\<close>

definition rendered :: "resolver \<Rightarrow> event list \<Rightarrow> jstring" where
  "rendered fn trace = concat (map (emitted fn) trace)"

text \<open>
  A result without the text built: the error, or the cursor and the trace.
\<close>

definition scan_effect ::
  "error + (nat \<times> jstring \<times> event list) \<Rightarrow> error + (nat \<times> event list)" where
  "scan_effect r = (case r of Inl e \<Rightarrow> Inl e | Inr (i', out, tr) \<Rightarrow> Inr (i', tr))"

definition body_effect ::
  "error + (ctl \<times> nat \<times> jstring \<times> event list) \<Rightarrow> error + (ctl \<times> nat \<times> event list)" where
  "body_effect r = (case r of Inl e \<Rightarrow> Inl e | Inr (c, i', out, tr) \<Rightarrow> Inr (c, i', tr))"

definition loop_effect :: "error + (jstring \<times> event list) \<Rightarrow> error + event list" where
  "loop_effect r = (case r of Inl e \<Rightarrow> Inl e | Inr (out, tr) \<Rightarrow> Inr tr)"

text \<open>
  The calls of a trace are in order up to \<open>b\<close>: their positions increase strictly, none
  is beyond \<open>b\<close> or beyond the end of the input, and each name is the text of the input
  that ends just before the call's position.
\<close>

definition calls_in_order :: "jstring \<Rightarrow> nat \<Rightarrow> event list \<Rightarrow> bool" where
  "calls_in_order str b trace =
     (sorted_wrt (<) (map fst (calls trace))
      \<and> list_all (\<lambda>(j, name). j \<le> b \<and> j \<le> length str
                    \<and> name = slice str (j - length name) j) (calls trace))"


section \<open>Running both implementations on concrete inputs\<close>

text \<open>
  The equations that let the simplifier run a call on a literal input: the loop and the
  scans one step at a time, the tables and the string operations.
\<close>

lemmas run_table = substitute_def substitute_run_def loop.simps body_def Let_def
  scan_dollar_brace_step scan_dollar_step scan_percent_step charAt_def js_def
  CHARS_DOLLAR_BRACE_def CHARS_DOLLAR_def CHARS_PERCENT_def

lemmas run_excl = substitute_excl_def substitute_excl_run_def loop_excl.simps body_excl_def
  Let_def scan_dollar_brace_excl_step scan_dollar_excl_step scan_percent_excl_step
  charAt_def js_def invalidCharacters_def regex_word_test_def word_unit_def

section \<open>Escapes\<close>

text \<open>
  A pass of the outer loop that starts on a doubled delimiter, at any position of any
  input, and the loop from there.
\<close>

lemma loop_esc_dollar:
  assumes "dollar" and "charAt str i = js ''$''" and "charAt str (i + 1) = js ''$''"
  shows "loop str fn percent dollar strict i finalString trace
     = loop str fn percent dollar strict (i + 2) (finalString @ js ''$'')
         (trace @ [Text (js ''$'')])"
proof -
  have l: "i < length str"
    using assms(2) by (rule charAt_js_in_range)
  have b: "body str fn percent dollar strict i finalString trace
      = Inr (Continue, i + 1, finalString @ js ''$'', trace @ [Text (js ''$'')])"
    using assms by (rule body_esc_dollar)
  show ?thesis
    by (subst loop.simps) (simp add: l b)
qed

lemma loop_esc_percent:
  assumes "percent" and "charAt str i = js ''%''" and "charAt str (i + 1) = js ''%''"
  shows "loop str fn percent dollar strict i finalString trace
     = loop str fn percent dollar strict (i + 2) (finalString @ js ''%'')
         (trace @ [Text (js ''%'')])"
proof -
  have l: "i < length str"
    using assms(2) by (rule charAt_js_in_range)
  have b: "body str fn percent dollar strict i finalString trace
      = Inr (Continue, i + 1, finalString @ js ''%'', trace @ [Text (js ''%'')])"
    using assms by (simp add: body_esc_percent)
  show ?thesis
    by (subst loop.simps) (simp add: l b)
qed

text \<open>
  C7. With its switch enabled, a doubled delimiter is recognised before any variable
  form: wherever a pass of the outer loop starts on \<open>$$\<close> (with \<open>dollar\<close> enabled) or
  on \<open>%%\<close> (with \<open>percent\<close> enabled), for every resolver and in strict and in lenient
  mode, it appends the single delimiter as literal text, calls nothing, and the loop goes
  on behind the second delimiter. So \<open>substitute("$$")\<close> is \<open>"$"\<close>,
  \<open>substitute("%%")\<close> is \<open>"%"\<close> and \<open>substitute("$$abc")\<close> is \<open>"$abc"\<close>, and the trace
  of each of these runs holds literal text only: the resolver is never called.
\<close>

theorem escapes_before_variables:
  "(dollar \<and> charAt str i = js ''$'' \<and> charAt str (i + 1) = js ''$''
      \<longrightarrow> body str fn percent dollar strict i finalString trace
            = Inr (Continue, i + 1, finalString @ js ''$'', trace @ [Text (js ''$'')])
        \<and> loop str fn percent dollar strict i finalString trace
            = loop str fn percent dollar strict (i + 2) (finalString @ js ''$'')
                (trace @ [Text (js ''$'')]))
   \<and> (percent \<and> charAt str i = js ''%'' \<and> charAt str (i + 1) = js ''%''
      \<longrightarrow> body str fn percent dollar strict i finalString trace
            = Inr (Continue, i + 1, finalString @ js ''%'', trace @ [Text (js ''%'')])
        \<and> loop str fn percent dollar strict i finalString trace
            = loop str fn percent dollar strict (i + 2) (finalString @ js ''%'')
                (trace @ [Text (js ''%'')]))
   \<and> substitute_run (js ''$$'') fn percent True strict = Inr (js ''$'', [Text (js ''$'')])
   \<and> substitute_run (js ''%%'') fn True dollar strict = Inr (js ''%'', [Text (js ''%'')])
   \<and> substitute_run (js ''$$abc'') fn percent True strict
       = Inr (js ''$abc'', [Text (js ''$''), Text (js ''a''), Text (js ''b''), Text (js ''c'')])
   \<and> substitute (js ''$$'') fn percent True strict = Inr (js ''$'')
   \<and> substitute (js ''%%'') fn True dollar strict = Inr (js ''%'')
   \<and> substitute (js ''$$abc'') fn percent True strict = Inr (js ''$abc'')"
proof (intro conjI impI)
  assume a: "dollar \<and> charAt str i = js ''$'' \<and> charAt str (i + 1) = js ''$''"
  then show "body str fn percent dollar strict i finalString trace
      = Inr (Continue, i + 1, finalString @ js ''$'', trace @ [Text (js ''$'')])"
    by (simp add: body_esc_dollar)
  from a show "loop str fn percent dollar strict i finalString trace
      = loop str fn percent dollar strict (i + 2) (finalString @ js ''$'')
          (trace @ [Text (js ''$'')])"
    by (simp add: loop_esc_dollar)
next
  assume a: "percent \<and> charAt str i = js ''%'' \<and> charAt str (i + 1) = js ''%''"
  then show "body str fn percent dollar strict i finalString trace
      = Inr (Continue, i + 1, finalString @ js ''%'', trace @ [Text (js ''%'')])"
    by (simp add: body_esc_percent)
  from a show "loop str fn percent dollar strict i finalString trace
      = loop str fn percent dollar strict (i + 2) (finalString @ js ''%'')
          (trace @ [Text (js ''%'')])"
    by (simp add: loop_esc_percent)
qed (simp_all add: run_table)

theorem escapes_before_variables_witness:
  "charAt (js ''ab$$cd'') 2 = js ''$'' \<and> charAt (js ''ab$$cd'') (2 + 1) = js ''$''
   \<and> body (js ''ab$$cd'') Some True True True 2 (js ''ab'') []
       = Inr (Continue, 2 + 1, js ''ab'' @ js ''$'', [] @ [Text (js ''$'')])
   \<and> loop (js ''ab$$cd'') Some True True True 2 (js ''ab'') []
       = loop (js ''ab$$cd'') Some True True True (2 + 2) (js ''ab'' @ js ''$'')
           ([] @ [Text (js ''$'')])
   \<and> loop (js ''ab$$cd'') Some True True True 2 (js ''ab'') []
       = Inr (js ''ab$cd'', [Text (js ''$''), Text (js ''c''), Text (js ''d'')])
   \<and> charAt (js ''ab%%'') 2 = js ''%'' \<and> charAt (js ''ab%%'') (2 + 1) = js ''%''
   \<and> body (js ''ab%%'') Some True True True 2 (js ''ab'') []
       = Inr (Continue, 2 + 1, js ''ab'' @ js ''%'', [] @ [Text (js ''%'')])
   \<and> loop (js ''ab%%'') Some True True True 2 (js ''ab'') []
       = loop (js ''ab%%'') Some True True True (2 + 2) (js ''ab'' @ js ''%'')
           ([] @ [Text (js ''%'')])
   \<and> substitute (js ''ab%%'') Some True True True = Inr (js ''ab%'')"
proof -
  have d: "True \<and> charAt (js ''ab$$cd'') 2 = js ''$'' \<and> charAt (js ''ab$$cd'') (2 + 1) = js ''$''"
    and p: "True \<and> charAt (js ''ab%%'') 2 = js ''%'' \<and> charAt (js ''ab%%'') (2 + 1) = js ''%''"
    by (simp_all add: charAt_def js_def)
  have e: "loop (js ''ab$$cd'') Some True True True (2 + 2) (js ''ab'' @ js ''$'')
        ([] @ [Text (js ''$'')])
      = Inr (js ''ab$cd'', [Text (js ''$''), Text (js ''c''), Text (js ''d'')])"
    and s: "substitute (js ''ab%%'') Some True True True = Inr (js ''ab%'')"
    by (simp_all add: run_table)
  note w1 = escapes_before_variables [where str = "js ''ab$$cd''" and i = 2 and fn = Some
      and percent = True and dollar = True and strict = True and finalString = "js ''ab''"
      and trace = "[]", THEN conjunct1, rule_format, OF d]
  note w2 = escapes_before_variables [where str = "js ''ab%%''" and i = 2 and fn = Some
      and percent = True and dollar = True and strict = True and finalString = "js ''ab''"
      and trace = "[]", THEN conjunct2, THEN conjunct1, rule_format, OF p]
  show ?thesis
    using d p e s w1 w2 by simp
qed

section \<open>The empty brace form in lenient mode\<close>

text \<open>
  C1. In lenient mode the scan is said to emit \<open>${}\<close> for an empty brace form and to go
  on with the rest of the input. Both implementations leave the outer loop there
  instead: on \<open>"${}abc"\<close> they return \<open>"${}"\<close> and the trailing \<open>"abc"\<close> is lost.
\<close>

theorem lenient_empty_brace_drops_rest:
  "substitute (js ''${}abc'') fn percent True False = Inr (js ''${}'')
   \<and> substitute_excl (js ''${}abc'') fn percent True False = Inr (js ''${}'')"
  by (simp add: run_table run_excl)

section \<open>The character tables\<close>

text \<open>
  The members of the two tables for names between delimiters, by code unit: the
  printable ASCII characters \<open>0x20\<close> to \<open>0x7E\<close>, without the closing delimiter,
  without \<open>=\<close> (\<open>0x3D\<close>) and without the backslash (\<open>0x5C\<close>).
\<close>

lemma printable_ascii_cases:
  assumes "printable_ascii c"
  shows "c \<in> of_nat ` {32..<127}"
proof -
  have "32 \<le> unat c" "unat c \<le> 126"
    using assms by (simp_all add: printable_ascii_def word_le_nat_alt)
  then have "unat c \<in> {32..<127}"
    by (simp only: atLeastLessThan_iff) arith
  moreover have "c = of_nat (unat c)" by simp
  ultimately show ?thesis by (rule image_eqI [rotated])
qed

lemma CHARS_DOLLAR_BRACE_members:
  "[c] \<in> CHARS_DOLLAR_BRACE
    \<longleftrightarrow> printable_ascii c \<and> [c] \<noteq> js ''}'' \<and> [c] \<noteq> js ''='' \<and> c \<noteq> 0x5C"
proof
  assume "[c] \<in> CHARS_DOLLAR_BRACE"
  then show "printable_ascii c \<and> [c] \<noteq> js ''}'' \<and> [c] \<noteq> js ''='' \<and> c \<noteq> 0x5C"
    by (auto simp: CHARS_DOLLAR_BRACE_def js_def printable_ascii_def)
next
  assume r: "printable_ascii c \<and> [c] \<noteq> js ''}'' \<and> [c] \<noteq> js ''='' \<and> c \<noteq> 0x5C"
  then have "c \<in> of_nat ` {32..<127}" by (simp add: printable_ascii_cases)
  then show "[c] \<in> CHARS_DOLLAR_BRACE"
    using r by (auto simp: CHARS_DOLLAR_BRACE_def js_def atLeastLessThan_nat_numeral)
qed

lemma CHARS_PERCENT_members:
  "[c] \<in> CHARS_PERCENT
    \<longleftrightarrow> printable_ascii c \<and> [c] \<noteq> js ''%'' \<and> [c] \<noteq> js ''='' \<and> c \<noteq> 0x5C"
proof
  assume "[c] \<in> CHARS_PERCENT"
  then show "printable_ascii c \<and> [c] \<noteq> js ''%'' \<and> [c] \<noteq> js ''='' \<and> c \<noteq> 0x5C"
    by (auto simp: CHARS_PERCENT_def js_def printable_ascii_def)
next
  assume r: "printable_ascii c \<and> [c] \<noteq> js ''%'' \<and> [c] \<noteq> js ''='' \<and> c \<noteq> 0x5C"
  then have "c \<in> of_nat ` {32..<127}" by (simp add: printable_ascii_cases)
  then show "[c] \<in> CHARS_PERCENT"
    using r by (auto simp: CHARS_PERCENT_def js_def atLeastLessThan_nat_numeral)
qed

text \<open>
  C3. A printable ASCII character other than the closing delimiter and \<open>=\<close> is said to
  be accepted in a name. The backslash (\<open>0x5C\<close>) is printable ASCII and is in neither
  table: in strict mode \<open>${a\b}\<close> and \<open>%a\b%\<close> raise \<open>BadCharacterError\<close> at the
  backslash, where the exclusion-based implementation resolves the name \<open>a\b\<close>.
\<close>

theorem backslash_rejected_in_names:
  "printable_ascii 0x5C
   \<and> [0x5C] \<notin> CHARS_DOLLAR_BRACE \<and> [0x5C] \<notin> CHARS_PERCENT
   \<and> substitute (js ''${a'' @ [0x5C] @ js ''b}'') fn percent True True
       = Inl (BadCharacterError (js ''${a'') [0x5C])
   \<and> substitute (js ''%a'' @ [0x5C] @ js ''b%'') fn True dollar True
       = Inl (BadCharacterError (js ''%a'') [0x5C])
   \<and> substitute_excl (js ''${a'' @ [0x5C] @ js ''b}'') fn percent True True
       = Inr (or_empty (fn (js ''a'' @ [0x5C] @ js ''b'')))"
  by (simp add: run_table run_excl printable_ascii_def)

section \<open>Non-ASCII characters in names\<close>

text \<open>
  C4. The two implementations differ on a non-ASCII character inside a reference. On
  \<open>${c}\<close> and on \<open>%c%\<close>, with \<open>c\<close> the code unit U+1234 (beyond the ASCII range, which ends at \<open>0x7F\<close>), the table-driven implementation raises
  \<open>BadCharacterError\<close> in strict mode; the exclusion-based one takes the character as
  the name and returns what the resolver gives for it.
\<close>

theorem implementations_differ_on_non_ascii:
  "(0x7F :: jchar) < 0x1234
   \<and> substitute [0x24, 0x7B, 0x1234, 0x7D] fn percent True True
       = Inl (BadCharacterError (js ''${'') [0x1234])
   \<and> substitute_excl [0x24, 0x7B, 0x1234, 0x7D] fn percent True True
       = Inr (or_empty (fn [0x1234]))
   \<and> substitute [0x25, 0x1234, 0x25] fn True dollar True
       = Inl (BadCharacterError (js ''%'') [0x1234])
   \<and> substitute_excl [0x25, 0x1234, 0x25] fn True dollar True
       = Inr (or_empty (fn [0x1234]))"
  by (simp add: run_table run_excl printable_ascii_def)

section \<open>Lenient mode never raises\<close>

lemma scan_dollar_brace_lenient:
  "\<exists>r. scan_dollar_brace str fn False i varName finalString trace = Inr r"
proof (induction str fn "False" i varName finalString trace rule: scan_dollar_brace.induct)
  case (1 str fn i varName finalString trace)
  then show ?case
    by (subst scan_dollar_brace_step) auto
qed

lemma scan_percent_lenient:
  "\<exists>r. scan_percent str fn False i varName finalString trace = Inr r"
proof (induction str fn "False" i varName finalString trace rule: scan_percent.induct)
  case (1 str fn i varName finalString trace)
  then show ?case
    by (subst scan_percent_step) auto
qed

lemma body_lenient:
  "\<exists>r. body str fn percent dollar False i finalString trace = Inr r"
proof (cases rule: body_cases [where dollar = dollar and str = str and i = i and percent = percent])
  case brace
  then show ?thesis
    using scan_dollar_brace_lenient [of str fn "i + 1" "[]" finalString trace]
    by (auto simp: body_brace)
next
  case percent
  then show ?thesis
    using scan_percent_lenient [of str fn i "[]" finalString trace]
    by (auto simp: body_percent)
next
  case bare
  then show ?thesis
    unfolding body_bare [OF bare] by blast
qed (simp_all add: body_esc_dollar body_empty_brace body_esc_percent body_literal)

lemma loop_lenient:
  "\<exists>r. loop str fn percent dollar False i finalString trace = Inr r"
proof (induction str fn percent dollar "False" i finalString trace rule: loop.induct)
  case (1 str fn percent dollar i finalString trace)
  show ?case
  proof (cases "i < length str")
    case False
    then show ?thesis by (subst loop.simps) simp
  next
    case True
    obtain c i' out tr where b: "body str fn percent dollar False i finalString trace
        = Inr (c, i', out, tr)"
      using body_lenient [of str fn percent dollar i finalString trace] by (metis prod_cases4)
    show ?thesis
    proof (cases c)
      case Continue
      then show ?thesis
        using "1" [OF True b [unfolded Continue] refl refl refl refl] True b
        by (subst loop.simps) simp
    next
      case Break
      then show ?thesis
        using True b by (subst loop.simps) simp
    qed
  qed
qed

text \<open>
  C2. With \<open>strict = false\<close> a call never raises: for every input, every setting of
  the percent and dollar switches and every resolver, it returns a string.
\<close>

theorem lenient_never_raises:
  "\<exists>out. substitute str fn percent dollar False = Inr out"
proof -
  obtain r where "loop str fn percent dollar False 0 [] [] = Inr r"
    using loop_lenient by blast
  then show ?thesis
    by (simp add: substitute_def substitute_run_def)
qed


section \<open>Strict and lenient mode agree where strict mode succeeds\<close>

lemma scan_dollar_brace_strict_lenient:
  "scan_dollar_brace str fn True i varName finalString trace = Inr r
    \<Longrightarrow> scan_dollar_brace str fn False i varName finalString trace = Inr r"
proof (induction str fn "True" i varName finalString trace rule: scan_dollar_brace.induct)
  case (1 str fn i varName finalString trace)
  show ?case
  proof (cases "charAt str (i + 1) \<in> CHARS_DOLLAR_BRACE")
    case True
    then show ?thesis
      using "1.hyps" [OF refl refl True] "1.prems"
      by (simp add: scan_dollar_brace_step [of str fn _ i])
  next
    case False
    then show ?thesis
      using "1.prems"
      by (auto simp: scan_dollar_brace_step [of str fn _ i] split: if_splits)
  qed
qed

lemma scan_percent_strict_lenient:
  "scan_percent str fn True i varName finalString trace = Inr r
    \<Longrightarrow> scan_percent str fn False i varName finalString trace = Inr r"
proof (induction str fn "True" i varName finalString trace rule: scan_percent.induct)
  case (1 str fn i varName finalString trace)
  show ?case
  proof (cases "charAt str (i + 1) \<in> CHARS_PERCENT")
    case True
    then show ?thesis
      using "1.hyps" [OF refl refl True] "1.prems"
      by (simp add: scan_percent_step [of str fn _ i])
  next
    case False
    then show ?thesis
      using "1.prems"
      by (auto simp: scan_percent_step [of str fn _ i] split: if_splits)
  qed
qed

lemma body_strict_lenient:
  assumes "body str fn percent dollar True i finalString trace = Inr r"
  shows "body str fn percent dollar False i finalString trace = Inr r"
proof (cases rule: body_cases [where dollar = dollar and str = str and i = i and percent = percent])
  case esc_dollar
  then show ?thesis using assms by (simp add: body_esc_dollar)
next
  case empty_brace
  then show ?thesis using assms by (simp add: body_empty_brace)
next
  case brace
  then show ?thesis
    using assms scan_dollar_brace_strict_lenient [of str fn "i + 1" "[]" finalString trace]
    by (cases "scan_dollar_brace str fn True (i + 1) [] finalString trace")
      (auto simp: body_brace)
next
  case bare
  then show ?thesis using assms by (simp add: body_bare)
next
  case esc_percent
  then show ?thesis using assms by (simp add: body_esc_percent)
next
  case percent
  then show ?thesis
    using assms scan_percent_strict_lenient [of str fn i "[]" finalString trace]
    by (cases "scan_percent str fn True i [] finalString trace")
      (auto simp: body_percent)
next
  case literal
  then show ?thesis using assms by (simp add: body_literal)
qed

lemma loop_strict_lenient:
  "loop str fn percent dollar True i finalString trace = Inr r
    \<Longrightarrow> loop str fn percent dollar False i finalString trace = Inr r"
proof (induction str fn percent dollar "True" i finalString trace rule: loop.induct)
  case (1 str fn percent dollar i finalString trace)
  show ?case
  proof (cases "i < length str")
    case False
    then show ?thesis
      using "1.prems" by (simp add: loop.simps [of str fn percent dollar _ i])
  next
    case True
    then obtain c i' out tr where b: "body str fn percent dollar True i finalString trace
        = Inr (c, i', out, tr)"
      using "1.prems"
      by (cases "body str fn percent dollar True i finalString trace")
        (auto simp: loop.simps [of str fn percent dollar _ i])
    then have b': "body str fn percent dollar False i finalString trace = Inr (c, i', out, tr)"
      by (rule body_strict_lenient)
    show ?thesis
    proof (cases c)
      case Continue
      then have "loop str fn percent dollar True (i' + 1) out tr = Inr r"
        using "1.prems" True b by (simp add: loop.simps [of str fn percent dollar _ i])
      then have "loop str fn percent dollar False (i' + 1) out tr = Inr r"
        using "1.hyps" [OF True b [unfolded Continue] refl refl refl refl] by simp
      then show ?thesis
        using True b' Continue by (simp add: loop.simps [of str fn percent dollar _ i])
    next
      case Break
      then show ?thesis
        using "1.prems" True b b' by (simp add: loop.simps [of str fn percent dollar _ i])
    qed
  qed
qed

text \<open>
  C5. On every input on which strict mode does not raise, strict and lenient mode give
  the same output, for every resolver and every setting of the percent and dollar
  switches.
\<close>

theorem strict_result_is_lenient_result:
  assumes "substitute str fn percent dollar True = Inr out"
  shows "substitute str fn percent dollar False = Inr out"
proof -
  obtain r where r: "loop str fn percent dollar True 0 [] [] = Inr r" and "fst r = out"
    using assms
    by (cases "loop str fn percent dollar True 0 [] []")
      (auto simp: substitute_def substitute_run_def)
  then show ?thesis
    using loop_strict_lenient [OF r]
    by (simp add: substitute_def substitute_run_def)
qed

theorem strict_result_is_lenient_result_witness:
  "substitute (js ''abc${def}ghi $x %y%'') (\<lambda>n. Some (n @ n)) True True True
     = Inr (js ''abcdefdefghi xx yy'')
   \<and> substitute (js ''abc${def}ghi $x %y%'') (\<lambda>n. Some (n @ n)) True True False
     = Inr (js ''abcdefdefghi xx yy'')"
proof -
  have s: "substitute (js ''abc${def}ghi $x %y%'') (\<lambda>n. Some (n @ n)) True True True
     = Inr (js ''abcdefdefghi xx yy'')"
    by (simp add: run_table or_empty_def)
  show ?thesis
    using s strict_result_is_lenient_result [OF s] by simp
qed

section \<open>The percent and dollar switches\<close>

lemma charAt_has_char: "charAt str k = [c] \<Longrightarrow> has_char str [c]"
  by (auto simp: charAt_def has_char_def split: if_splits)

lemma not_has_char: "\<not> has_char str (js [c]) \<Longrightarrow> \<forall>k. charAt str k \<noteq> js [c]"
  using charAt_has_char by (fastforce simp: js_def)

lemma charAt_drop: "i < length str \<Longrightarrow> charAt str i @ drop (i + 1) str = drop i str"
  by (simp add: charAt_def Cons_nth_drop_Suc)

lemma loop_switches_off:
  "loop str fn False False strict i finalString trace
     = Inr (finalString @ drop i str, trace @ map (\<lambda>c. Text [c]) (drop i str))"
proof (induction str fn "False" "False" strict i finalString trace rule: loop.induct)
  case (1 str fn strict i finalString trace)
  show ?case
  proof (cases "i < length str")
    case False
    then show ?thesis by (simp add: loop.simps [of str fn _ _ strict i])
  next
    case True
    have b: "body str fn False False strict i finalString trace
        = Inr (Continue, i, finalString @ charAt str i, trace @ [Text (charAt str i)])"
      by (simp add: body_literal)
    have d: "drop i str = (str ! i) # drop (i + 1) str"
      using True by (simp add: Cons_nth_drop_Suc)
    have "loop str fn False False strict (i + 1) (finalString @ charAt str i)
            (trace @ [Text (charAt str i)])
          = Inr ((finalString @ charAt str i) @ drop (i + 1) str,
                 (trace @ [Text (charAt str i)]) @ map (\<lambda>c. Text [c]) (drop (i + 1) str))"
      using "1.hyps" [OF True b refl refl refl refl] .
    then show ?thesis
      using True b d by (simp add: loop.simps [of str fn _ _ strict i] charAt_def)
  qed
qed

lemma body_without_dollar:
  "charAt str i \<noteq> js ''$''
    \<Longrightarrow> body str fn percent True strict i finalString trace
        = body str fn percent False strict i finalString trace"
  by (simp add: body_def Let_def)

lemma body_without_percent:
  "charAt str i \<noteq> js ''%''
    \<Longrightarrow> body str fn True dollar strict i finalString trace
        = body str fn False dollar strict i finalString trace"
  by (simp add: body_def Let_def)

lemma loop_without_dollar:
  "\<forall>k. charAt str k \<noteq> js ''$''
    \<Longrightarrow> loop str fn percent True strict i finalString trace
        = loop str fn percent False strict i finalString trace"
proof (induction str fn percent "False" strict i finalString trace rule: loop.induct)
  case (1 str fn percent strict i finalString trace)
  have b: "body str fn percent True strict i finalString trace
        = body str fn percent False strict i finalString trace"
    using "1.prems" by (simp add: body_without_dollar)
  show ?case
  proof (cases "i < length str")
    case False
    then show ?thesis by (simp add: loop.simps [of str fn percent _ strict i])
  next
    case True
    show ?thesis
    proof (cases "body str fn percent False strict i finalString trace")
      case (Inl e)
      then show ?thesis
        using True b by (simp add: loop.simps [of str fn percent _ strict i])
    next
      case (Inr r)
      obtain c i' out tr where r: "r = (c, i', out, tr)" by (cases r)
      show ?thesis
      proof (cases c)
        case Continue
        then show ?thesis
          using "1.hyps" [OF True Inr [unfolded r Continue] refl refl refl refl "1.prems"]
            True b Inr r
          by (simp add: loop.simps [of str fn percent _ strict i])
      next
        case Break
        then show ?thesis
          using True b Inr r by (simp add: loop.simps [of str fn percent _ strict i])
      qed
    qed
  qed
qed

lemma loop_without_percent:
  "\<forall>k. charAt str k \<noteq> js ''%''
    \<Longrightarrow> loop str fn True dollar strict i finalString trace
        = loop str fn False dollar strict i finalString trace"
proof (induction str fn "False" dollar strict i finalString trace rule: loop.induct)
  case (1 str fn dollar strict i finalString trace)
  have b: "body str fn True dollar strict i finalString trace
        = body str fn False dollar strict i finalString trace"
    using "1.prems" by (simp add: body_without_percent)
  show ?case
  proof (cases "i < length str")
    case False
    then show ?thesis by (simp add: loop.simps [of str fn _ dollar strict i])
  next
    case True
    show ?thesis
    proof (cases "body str fn False dollar strict i finalString trace")
      case (Inl e)
      then show ?thesis
        using True b by (simp add: loop.simps [of str fn _ dollar strict i])
    next
      case (Inr r)
      obtain c i' out tr where r: "r = (c, i', out, tr)" by (cases r)
      show ?thesis
      proof (cases c)
        case Continue
        then show ?thesis
          using "1.hyps" [OF True Inr [unfolded r Continue] refl refl refl refl "1.prems"]
            True b Inr r
          by (simp add: loop.simps [of str fn _ dollar strict i])
      next
        case Break
        then show ?thesis
          using True b Inr r by (simp add: loop.simps [of str fn _ dollar strict i])
      qed
    qed
  qed
qed

text \<open>
  C6, as stated: with both switches disabled the input is returned unchanged, and
  disabling only \<open>dollar\<close> leaves the handling of every \<open>%\<close>-form unaffected, and the
  other way round. The second half fails where one form's text meets the other's
  delimiter. In \<open>$%a%\<close> the form \<open>%a%\<close> is resolved when \<open>dollar\<close> is disabled; when
  it is enabled the bare \<open>$\<close> takes the first \<open>%\<close> as literal text and the last
  \<open>%\<close> is unterminated. In \<open>%${a}%\<close> the form \<open>${a}\<close> is resolved when \<open>percent\<close>
  is disabled and is the name of a \<open>%\<close>-form when it is enabled.
\<close>

theorem switch_changes_other_form:
  "substitute (js ''$%a%'') Some True False True = Inr (js ''$a'')
   \<and> substitute (js ''$%a%'') Some True True True = Inl (UnterminatedVariableError (js ''%''))
   \<and> substitute (js ''$%a%'') Some True True False = Inr (js ''$%a%'')
   \<and> substitute (js ''%${a}%'') Some False True True = Inr (js ''%a%'')
   \<and> substitute (js ''%${a}%'') Some True True True = Inr (js ''${a}'')"
  by (simp add: run_table or_empty_def)

text \<open>
  C6, amended. With both switches disabled the input is returned unchanged, for every
  input, resolver and strict setting. On an input without \<open>$\<close> the \<open>dollar\<close> switch
  does not change the result, and on an input without \<open>%\<close> the \<open>percent\<close> switch
  does not. A pass of the loop body that starts on a character other than \<open>$\<close> (so on
  every \<open>%\<close>) does the same whatever the \<open>dollar\<close> switch is, and one that starts on a
  character other than \<open>%\<close> does the same whatever the \<open>percent\<close> switch is.
\<close>

theorem switch_independence:
  "substitute str fn False False strict = Inr str
   \<and> (\<not> has_char str (js ''$'')
        \<longrightarrow> substitute str fn percent True strict = substitute str fn percent False strict)
   \<and> (\<not> has_char str (js ''%'')
        \<longrightarrow> substitute str fn True dollar strict = substitute str fn False dollar strict)
   \<and> (charAt str i \<noteq> js ''$''
        \<longrightarrow> body str fn percent True strict i finalString trace
            = body str fn percent False strict i finalString trace)
   \<and> (charAt str i \<noteq> js ''%''
        \<longrightarrow> body str fn True dollar strict i finalString trace
            = body str fn False dollar strict i finalString trace)"
proof (intro conjI impI)
  show "substitute str fn False False strict = Inr str"
    by (simp add: substitute_def substitute_run_def loop_switches_off)
next
  assume "\<not> has_char str (js ''$'')"
  then have "\<forall>k. charAt str k \<noteq> js ''$''" by (rule not_has_char)
  then show "substitute str fn percent True strict = substitute str fn percent False strict"
    by (simp add: substitute_def substitute_run_def loop_without_dollar)
next
  assume "\<not> has_char str (js ''%'')"
  then have "\<forall>k. charAt str k \<noteq> js ''%''" by (rule not_has_char)
  then show "substitute str fn True dollar strict = substitute str fn False dollar strict"
    by (simp add: substitute_def substitute_run_def loop_without_percent)
next
  assume "charAt str i \<noteq> js ''$''"
  then show "body str fn percent True strict i finalString trace
      = body str fn percent False strict i finalString trace"
    by (rule body_without_dollar)
next
  assume "charAt str i \<noteq> js ''%''"
  then show "body str fn True dollar strict i finalString trace
      = body str fn False dollar strict i finalString trace"
    by (rule body_without_percent)
qed

theorem switch_independence_witness:
  "substitute (js ''%% $$ %a% ${b}'') Some False False True = Inr (js ''%% $$ %a% ${b}'')
   \<and> \<not> has_char (js ''%a% %%'') (js ''$'')
   \<and> substitute (js ''%a% %%'') Some True True True = Inr (js ''a %'')
   \<and> substitute (js ''%a% %%'') Some True False True = Inr (js ''a %'')
   \<and> \<not> has_char (js ''${a} $$'') (js ''%'')
   \<and> substitute (js ''${a} $$'') Some True True True = Inr (js ''a $'')
   \<and> substitute (js ''${a} $$'') Some False True True = Inr (js ''a $'')
   \<and> charAt (js ''$%a%'') 1 \<noteq> js ''$''
   \<and> body (js ''$%a%'') Some True True True 1 [] []
       = Inr (Continue, 3, js ''a'', [Call 3 (js ''a'')])
   \<and> body (js ''$%a%'') Some True False True 1 [] []
       = Inr (Continue, 3, js ''a'', [Call 3 (js ''a'')])
   \<and> charAt (js ''%${a}%'') 1 \<noteq> js ''%''
   \<and> body (js ''%${a}%'') Some True True True 1 [] []
       = Inr (Continue, 4, js ''a'', [Call 4 (js ''a'')])
   \<and> body (js ''%${a}%'') Some False True True 1 [] []
       = Inr (Continue, 4, js ''a'', [Call 4 (js ''a'')])"
proof -
  have d: "\<not> has_char (js ''%a% %%'') (js ''$'')"
    and p: "\<not> has_char (js ''${a} $$'') (js ''%'')"
    by (simp_all add: has_char_def js_def)
  have cd: "charAt (js ''$%a%'') 1 \<noteq> js ''$''"
    and cp: "charAt (js ''%${a}%'') 1 \<noteq> js ''%''"
    by (simp_all add: charAt_def js_def)
  have 1: "substitute (js ''%a% %%'') Some True False True = Inr (js ''a %'')"
    and 2: "substitute (js ''${a} $$'') Some False True True = Inr (js ''a $'')"
    and 3: "body (js ''$%a%'') Some True False True 1 [] []
       = Inr (Continue, 3, js ''a'', [Call 3 (js ''a'')])"
    and 4: "body (js ''%${a}%'') Some False True True 1 [] []
       = Inr (Continue, 4, js ''a'', [Call 4 (js ''a'')])"
    by (simp_all add: run_table or_empty_def)
  show ?thesis
    using d p cd cp 1 2 3 4
      switch_independence [where str = "js ''%% $$ %a% ${b}''" and fn = Some and strict = True]
      switch_independence [where str = "js ''%a% %%''" and fn = Some and strict = True
        and percent = True]
      switch_independence [where str = "js ''${a} $$''" and fn = Some and strict = True
        and dollar = True]
      switch_independence [where str = "js ''$%a%''" and fn = Some and strict = True
        and percent = True and i = 1 and finalString = "[]" and trace = "[]"]
      switch_independence [where str = "js ''%${a}%''" and fn = Some and strict = True
        and dollar = True and i = 1 and finalString = "[]" and trace = "[]"]
    by simp
qed

section \<open>Termination and progress of the outer loop\<close>

lemma loop_fuel_enough:
  "length str - i \<le> n
    \<Longrightarrow> loop_fuel n str fn percent dollar strict i finalString trace
        = Some (loop str fn percent dollar strict i finalString trace)"
proof (induction n arbitrary: i finalString trace)
  case 0
  then show ?case
    by (simp add: loop_fuel.simps [of 0] loop.simps [of str fn percent dollar strict i])
next
  case (Suc n)
  show ?case
  proof (cases "i < length str")
    case False
    then show ?thesis
      by (simp add: loop_fuel.simps [of "Suc n"] loop.simps [of str fn percent dollar strict i])
  next
    case True
    show ?thesis
    proof (cases "body str fn percent dollar strict i finalString trace")
      case (Inl e)
      then show ?thesis
        using True
        by (simp add: loop_fuel.simps [of "Suc n"] loop.simps [of str fn percent dollar strict i])
    next
      case (Inr r)
      obtain c i' out tr where r: "r = (c, i', out, tr)" by (cases r)
      have "i \<le> i'"
        using body_cursor [OF True Inr [unfolded r]] by simp
      then have "length str - (i' + 1) \<le> n"
        using Suc.prems True by arith
      then have "loop_fuel n str fn percent dollar strict (i' + 1) out tr
          = Some (loop str fn percent dollar strict (i' + 1) out tr)"
        by (rule Suc.IH)
      then show ?thesis
        using True Inr r
        by (cases c)
          (simp_all add: loop_fuel.simps [of "Suc n"]
            loop.simps [of str fn percent dollar strict i])
    qed
  qed
qed

text \<open>
  C9. \<open>substitute\<close> terminates on every input, within as many passes of the outer loop
  as the input has characters: run with that much fuel, the loop returns, and returns
  what \<open>substitute\<close> returns. Every pass that does not raise leaves the cursor at or
  after its starting point and at most at the end of the input, so the next pass starts
  strictly further on; and the scan of a bare \<open>$NAME\<close>, started on the \<open>$\<close> at \<open>i\<close>,
  leaves the cursor strictly after \<open>i\<close>, its one step back included.
\<close>

theorem scan_makes_progress:
  "loop_fuel (length str) str fn percent dollar strict 0 [] []
     = Some (substitute_run str fn percent dollar strict)
   \<and> (i < length str
        \<and> body str fn percent dollar strict i finalString trace = Inr (c, i', out, tr)
      \<longrightarrow> i < i' + 1 \<and> i' + 1 \<le> length str + 1)
   \<and> (scan_dollar str fn i [] finalString trace = (i', out, tr) \<longrightarrow> i < i')"
proof (intro conjI impI)
  show "loop_fuel (length str) str fn percent dollar strict 0 [] []
     = Some (substitute_run str fn percent dollar strict)"
    by (simp add: loop_fuel_enough substitute_run_def)
next
  assume a: "i < length str
      \<and> body str fn percent dollar strict i finalString trace = Inr (c, i', out, tr)"
  then have "i \<le> i' \<and> i' \<le> length str"
    using body_cursor [of i str fn percent dollar strict finalString trace c i' out tr] by simp
  then show "i < i' + 1" and "i' + 1 \<le> length str + 1" by simp_all
next
  assume "scan_dollar str fn i [] finalString trace = (i', out, tr)"
  then show "i < i'"
    using scan_dollar_cursor [of str fn i "[]" finalString trace i' out tr] by simp
qed

theorem scan_makes_progress_witness:
  "loop_fuel (length (js ''$ab c'')) (js ''$ab c'') Some True True True 0 [] []
     = Some (Inr (js ''ab c'', [Call 3 (js ''ab''), Text (js '' ''), Text (js ''c'')]))
   \<and> 0 < length (js ''$ab c'')
   \<and> body (js ''$ab c'') Some True True True 0 [] []
       = Inr (Continue, 2, js ''ab'', [Call 3 (js ''ab'')])
   \<and> scan_dollar (js ''$ab c'') Some 0 [] [] [] = (2, js ''ab'', [Call 3 (js ''ab'')])
   \<and> (0::nat) < 2 + 1 \<and> 2 + 1 \<le> length (js ''$ab c'') + 1 \<and> (0::nat) < 2"
proof -
  have r: "substitute_run (js ''$ab c'') Some True True True
      = Inr (js ''ab c'', [Call 3 (js ''ab''), Text (js '' ''), Text (js ''c'')])"
    and b: "body (js ''$ab c'') Some True True True 0 [] []
       = Inr (Continue, 2, js ''ab'', [Call 3 (js ''ab'')])"
    and s: "scan_dollar (js ''$ab c'') Some 0 [] [] [] = (2, js ''ab'', [Call 3 (js ''ab'')])"
    by (simp_all add: run_table or_empty_def)
  have l: "0 < length (js ''$ab c'')" by (simp add: js_def)
  show ?thesis
    using r b s l
      scan_makes_progress [where str = "js ''$ab c''" and fn = Some and percent = True
        and dollar = True and strict = True and i = 0 and finalString = "[]" and trace = "[]"
        and c = Continue and i' = 2 and out = "js ''ab''" and tr = "[Call 3 (js ''ab'')]"]
    by simp
qed

section \<open>A delimiter as the last character of the input\<close>

lemma charAt_past_end: "length str \<le> k \<Longrightarrow> charAt str k = []"
  by (simp add: charAt_def)

lemma loop_final_dollar:
  assumes "i + 1 = length str" and "charAt str i = js ''$''"
  shows "loop str fn percent True strict i finalString trace
     = Inr (finalString @ js ''$'', trace @ [Text (js ''$'')])"
proof -
  have e: "charAt str (Suc i) = []"
    using assms(1) by (simp add: charAt_past_end)
  have "scan_dollar str fn i [] finalString trace
      = (i + 1, finalString @ js ''$'', trace @ [Text (js ''$'')])"
    by (subst scan_dollar_step) (simp add: e empty_notin_CHARS_DOLLAR)
  then have "body str fn percent True strict i finalString trace
      = Inr (Continue, i + 1, finalString @ js ''$'', trace @ [Text (js ''$'')])"
    using assms(2) e by (simp add: body_bare js_def)
  then show ?thesis
    using assms(1) by (simp add: loop.simps [of str fn percent True strict])
qed

lemma loop_final_percent:
  assumes "i + 1 = length str" and "charAt str i = js ''%''"
  shows "loop str fn True dollar True i finalString trace
     = Inl (UnterminatedVariableError (js ''%''))"
proof -
  have e: "charAt str (Suc i) = []"
    using assms(1) by (simp add: charAt_past_end)
  have "scan_percent str fn True i [] finalString trace
      = Inl (UnterminatedVariableError (js ''%''))"
    by (subst scan_percent_step) (simp add: e empty_notin_CHARS_PERCENT js_def)
  then have "body str fn True dollar True i finalString trace
      = Inl (UnterminatedVariableError (js ''%''))"
    using assms(2) e by (simp add: body_percent js_def)
  then show ?thesis
    using assms(1) by (simp add: loop.simps [of str fn True dollar True])
qed

lemma loop_excl_final_dollar:
  assumes "i + 1 = length str" and "charAt str i = js ''$''"
  shows "loop_excl str fn percent True strict i finalString trace
     = Inr (finalString @ js ''$'', trace @ [Text (js ''$'')])"
proof -
  have e: "charAt str (Suc i) = []"
    using assms(1) by (simp add: charAt_past_end)
  have "scan_dollar_excl str fn i [] finalString trace
      = (i + 1, finalString @ js ''$'', trace @ [Text (js ''$'')])"
    by (subst scan_dollar_excl_step) (simp add: e regex_word_test_empty)
  then have "body_excl str fn percent True strict i finalString trace
      = Inr (Continue, i + 1, finalString @ js ''$'', trace @ [Text (js ''$'')])"
    using assms(2) e by (simp add: body_excl_bare js_def)
  then show ?thesis
    using assms(1) by (simp add: loop_excl.simps [of str fn percent True strict])
qed

lemma loop_excl_final_percent:
  assumes "i + 1 = length str" and "charAt str i = js ''%''"
  shows "loop_excl str fn True dollar True i finalString trace
     = Inl (UnterminatedVariableError (js ''%''))"
proof -
  have e: "charAt str (Suc i) = []"
    using assms(1) by (simp add: charAt_past_end)
  have "scan_percent_excl str fn True i [] finalString trace
      = Inl (UnterminatedVariableError (js ''%''))"
    by (subst scan_percent_excl_step) (simp add: e empty_in_invalidCharacters js_def)
  then have "body_excl str fn True dollar True i finalString trace
      = Inl (UnterminatedVariableError (js ''%''))"
    using assms(2) e by (simp add: body_excl_percent js_def)
  then show ?thesis
    using assms(1) by (simp add: loop_excl.simps [of str fn True dollar True])
qed

text \<open>
  C10. When the outer loop stands on the last character of the input and that character
  is \<open>$\<close> (with \<open>dollar\<close> enabled), the \<open>$\<close> is emitted as a literal and nothing is
  raised, in strict and in lenient mode, in both implementations; so
  \<open>substitute("$")\<close> is \<open>"$"\<close> for every resolver and mode. A \<open>%\<close> in the same place
  (with \<open>percent\<close> enabled) raises \<open>UnterminatedVariableError\<close> in strict mode.
\<close>

theorem final_dollar_is_literal:
  "(i + 1 = length str \<and> charAt str i = js ''$''
      \<longrightarrow> loop str fn percent True strict i finalString trace
            = Inr (finalString @ js ''$'', trace @ [Text (js ''$'')])
        \<and> loop_excl str fn percent True strict i finalString trace
            = Inr (finalString @ js ''$'', trace @ [Text (js ''$'')]))
   \<and> (i + 1 = length str \<and> charAt str i = js ''%''
      \<longrightarrow> loop str fn True dollar True i finalString trace
            = Inl (UnterminatedVariableError (js ''%''))
        \<and> loop_excl str fn True dollar True i finalString trace
            = Inl (UnterminatedVariableError (js ''%'')))
   \<and> substitute (js ''$'') fn percent True strict = Inr (js ''$'')
   \<and> substitute_excl (js ''$'') fn percent True strict = Inr (js ''$'')
   \<and> substitute (js ''%'') fn True dollar True = Inl (UnterminatedVariableError (js ''%''))
   \<and> substitute_excl (js ''%'') fn True dollar True
       = Inl (UnterminatedVariableError (js ''%''))"
proof (intro conjI impI)
  show "substitute (js ''$'') fn percent True strict = Inr (js ''$'')"
    by (simp add: run_table)
  show "substitute_excl (js ''$'') fn percent True strict = Inr (js ''$'')"
    by (simp add: run_excl)
  show "substitute (js ''%'') fn True dollar True = Inl (UnterminatedVariableError (js ''%''))"
    by (simp add: run_table)
  show "substitute_excl (js ''%'') fn True dollar True
      = Inl (UnterminatedVariableError (js ''%''))"
    by (simp add: run_excl)
qed (simp_all add: loop_final_dollar loop_final_percent loop_excl_final_dollar
      loop_excl_final_percent)

theorem final_dollar_is_literal_witness:
  "2 + 1 = length (js ''ab$'') \<and> charAt (js ''ab$'') 2 = js ''$''
   \<and> loop (js ''ab$'') Some True True True 2 (js ''ab'') [] = Inr (js ''ab$'', [Text (js ''$'')])
   \<and> loop_excl (js ''ab$'') Some True True True 2 (js ''ab'') []
       = Inr (js ''ab$'', [Text (js ''$'')])
   \<and> 2 + 1 = length (js ''ab%'') \<and> charAt (js ''ab%'') 2 = js ''%''
   \<and> loop (js ''ab%'') Some True True True 2 (js ''ab'') []
       = Inl (UnterminatedVariableError (js ''%''))
   \<and> loop_excl (js ''ab%'') Some True True True 2 (js ''ab'') []
       = Inl (UnterminatedVariableError (js ''%''))"
proof -
  have d: "2 + 1 = length (js ''ab$'') \<and> charAt (js ''ab$'') 2 = js ''$''"
    and p: "2 + 1 = length (js ''ab%'') \<and> charAt (js ''ab%'') 2 = js ''%''"
    by (simp_all add: charAt_def js_def)
  show ?thesis
    using d p
      final_dollar_is_literal [where str = "js ''ab$''" and i = 2 and fn = Some
        and percent = True and strict = True and finalString = "js ''ab''" and trace = "[]"]
      final_dollar_is_literal [where str = "js ''ab%''" and i = 2 and fn = Some
        and dollar = True and finalString = "js ''ab''" and trace = "[]"]
    by (simp add: js_def)
qed


section \<open>Resolver calls and what they emit\<close>

lemma calls_append: "calls (xs @ ys) = calls xs @ calls ys"
  by (induction xs rule: calls.induct) simp_all

lemma slice_same: "slice str a a = []"
  by (simp add: slice_def)

lemma slice_step:
  assumes "a < length str" and "a < b"
  shows "charAt str a @ slice str (a + 1) b = slice str a b"
proof -
  have "drop a str = str ! a # drop (a + 1) str"
    using assms(1) by (simp add: Cons_nth_drop_Suc)
  moreover have "b - a = Suc (b - (a + 1))"
    using assms(2) by simp
  ultimately show ?thesis
    using assms(1) by (simp add: slice_def charAt_def)
qed

lemma slice_by_length:
  assumes "a \<le> b" and "b \<le> length str"
  shows "slice str (b - length (slice str a b)) b = slice str a b"
proof -
  have "length (slice str a b) = b - a"
    using assms by (simp add: slice_def)
  then show ?thesis using assms by simp
qed

lemma rendered_snoc: "rendered fn (tr @ [e]) = rendered fn tr @ emitted fn e"
  by (simp add: rendered_def)

lemma scan_dollar_brace_rendered:
  "scan_dollar_brace str fn strict i varName finalString trace = Inr (i', out, tr)
    \<Longrightarrow> finalString = rendered fn trace \<Longrightarrow> out = rendered fn tr"
  by (induction str fn strict i varName finalString trace rule: scan_dollar_brace.induct;
      subst (asm) scan_dollar_brace_step)
    (auto simp: rendered_snoc split: if_splits)

lemma scan_dollar_rendered:
  "scan_dollar str fn i varName finalString trace = (i', out, tr)
    \<Longrightarrow> finalString = rendered fn trace \<Longrightarrow> out = rendered fn tr"
  by (induction str fn i varName finalString trace rule: scan_dollar.induct;
      subst (asm) scan_dollar_step)
    (auto simp: rendered_snoc split: if_splits)

lemma scan_percent_rendered:
  "scan_percent str fn strict i varName finalString trace = Inr (i', out, tr)
    \<Longrightarrow> finalString = rendered fn trace \<Longrightarrow> out = rendered fn tr"
  by (induction str fn strict i varName finalString trace rule: scan_percent.induct;
      subst (asm) scan_percent_step)
    (auto simp: rendered_snoc split: if_splits)

lemma body_rendered:
  assumes "body str fn percent dollar strict i finalString trace = Inr (c, i', out, tr)"
    and "finalString = rendered fn trace"
  shows "out = rendered fn tr"
proof (cases rule: body_cases [where dollar = dollar and str = str and i = i and percent = percent])
  case esc_dollar
  then show ?thesis using assms by (auto simp: body_esc_dollar rendered_snoc)
next
  case empty_brace
  then show ?thesis using assms by (auto simp: body_empty_brace rendered_snoc split: if_splits)
next
  case brace
  then show ?thesis
    using assms scan_dollar_brace_rendered [of str fn strict "i + 1" "[]" finalString trace i' out tr]
    by (cases "scan_dollar_brace str fn strict (i + 1) [] finalString trace")
      (auto simp: body_brace)
next
  case bare
  then show ?thesis
    using assms scan_dollar_rendered [of str fn i "[]" finalString trace i' out tr]
    by (auto simp: body_bare)
next
  case esc_percent
  then show ?thesis using assms by (auto simp: body_esc_percent rendered_snoc)
next
  case percent
  then show ?thesis
    using assms scan_percent_rendered [of str fn strict i "[]" finalString trace i' out tr]
    by (cases "scan_percent str fn strict i [] finalString trace")
      (auto simp: body_percent)
next
  case literal
  then show ?thesis using assms by (auto simp: body_literal rendered_snoc)
qed

lemma loop_rendered:
  "loop str fn percent dollar strict i finalString trace = Inr (out, tr)
    \<Longrightarrow> finalString = rendered fn trace \<Longrightarrow> out = rendered fn tr"
proof (induction str fn percent dollar strict i finalString trace rule: loop.induct)
  case (1 str fn percent dollar strict i finalString trace)
  show ?case
  proof (cases "i < length str")
    case False
    then show ?thesis
      using "1.prems" by (auto simp: loop.simps [of str fn percent dollar strict i])
  next
    case True
    then obtain c i1 out1 tr1 where
      b: "body str fn percent dollar strict i finalString trace = Inr (c, i1, out1, tr1)"
      using "1.prems"(1)
      by (cases "body str fn percent dollar strict i finalString trace")
        (auto simp: loop.simps [of str fn percent dollar strict i])
    have o: "out1 = rendered fn tr1"
      using b "1.prems"(2) by (rule body_rendered)
    show ?thesis
    proof (cases c)
      case Continue
      then have "loop str fn percent dollar strict (i1 + 1) out1 tr1 = Inr (out, tr)"
        using "1.prems"(1) True b by (simp add: loop.simps [of str fn percent dollar strict i])
      then show ?thesis
        using "1.IH" [OF True b [unfolded Continue] refl refl refl refl] o by simp
    next
      case Break
      then show ?thesis
        using "1.prems"(1) True b o by (auto simp: loop.simps [of str fn percent dollar strict i])
    qed
  qed
qed

text \<open>
  What a run does apart from the text it builds (the error, or the cursor and the trace)
  does not depend on the resolver or on the output so far.
\<close>

lemma scan_effect_simps [simp]:
  "scan_effect (Inl e) = Inl e" "scan_effect (Inr (i', out, tr)) = Inr (i', tr)"
  by (simp_all add: scan_effect_def)

lemma body_effect_simps [simp]:
  "body_effect (Inl e) = Inl e" "body_effect (Inr (c, i', out, tr)) = Inr (c, i', tr)"
  by (simp_all add: body_effect_def)

lemma loop_effect_simps [simp]:
  "loop_effect (Inl e) = Inl e" "loop_effect (Inr (out, tr)) = Inr tr"
  by (simp_all add: loop_effect_def)

lemma scan_dollar_brace_any_resolver:
  "scan_effect
      (scan_dollar_brace str fn strict i varName finalString trace)
   = scan_effect
      (scan_dollar_brace str g strict i varName finalString2 trace)"
proof (induction str fn strict i varName finalString trace rule: scan_dollar_brace.induct)
  case (1 str fn strict i varName finalString trace)
  show ?case
  proof (cases "charAt str (i + 1) \<in> CHARS_DOLLAR_BRACE")
    case True
    then show ?thesis
      using "1.IH" [OF refl refl True]
      by (subst scan_dollar_brace_step, subst (2) scan_dollar_brace_step) simp
  next
    case False
    then show ?thesis
      by (subst scan_dollar_brace_step, subst (2) scan_dollar_brace_step) simp
  qed
qed

lemma scan_dollar_any_resolver:
  "scan_effect (Inr (scan_dollar str fn i varName finalString trace))
   = scan_effect (Inr (scan_dollar str g i varName finalString2 trace))"
proof (induction str fn i varName finalString trace rule: scan_dollar.induct)
  case (1 str fn i varName finalString trace)
  show ?case
  proof (cases "charAt str (i + 1) \<in> CHARS_DOLLAR")
    case True
    then show ?thesis
      using "1.IH" [OF refl refl True]
      by (subst scan_dollar_step, subst (2) scan_dollar_step) simp
  next
    case False
    then show ?thesis
      by (subst scan_dollar_step, subst (2) scan_dollar_step) simp
  qed
qed

lemma scan_percent_any_resolver:
  "scan_effect
      (scan_percent str fn strict i varName finalString trace)
   = scan_effect
      (scan_percent str g strict i varName finalString2 trace)"
proof (induction str fn strict i varName finalString trace rule: scan_percent.induct)
  case (1 str fn strict i varName finalString trace)
  show ?case
  proof (cases "charAt str (i + 1) \<in> CHARS_PERCENT")
    case True
    then show ?thesis
      using "1.IH" [OF refl refl True]
      by (subst scan_percent_step, subst (2) scan_percent_step) simp
  next
    case False
    then show ?thesis
      by (subst scan_percent_step, subst (2) scan_percent_step) simp
  qed
qed

lemma body_any_resolver:
  "body_effect
      (body str fn percent dollar strict i finalString trace)
   = body_effect
      (body str g percent dollar strict i finalString2 trace)"
proof (cases rule: body_cases [where dollar = dollar and str = str and i = i and percent = percent])
  case brace
  then show ?thesis
    using scan_dollar_brace_any_resolver [of str fn strict "i + 1" "[]" finalString trace g
        finalString2]
    by (cases "scan_dollar_brace str fn strict (i + 1) [] finalString trace";
        cases "scan_dollar_brace str g strict (i + 1) [] finalString2 trace")
      (auto simp: body_brace)
next
  case bare
  then show ?thesis
    using scan_dollar_any_resolver [of str fn i "[]" finalString trace g finalString2]
    by (cases "scan_dollar str fn i [] finalString trace";
        cases "scan_dollar str g i [] finalString2 trace")
      (auto simp: body_bare)
next
  case percent
  then show ?thesis
    using scan_percent_any_resolver [of str fn strict i "[]" finalString trace g finalString2]
    by (cases "scan_percent str fn strict i [] finalString trace";
        cases "scan_percent str g strict i [] finalString2 trace")
      (auto simp: body_percent)
qed (simp_all add: body_esc_dollar body_empty_brace body_esc_percent body_literal)

lemma loop_any_resolver:
  "loop_effect (loop str fn percent dollar strict i finalString trace)
   = loop_effect (loop str g percent dollar strict i finalString2 trace)"
proof (induction str fn percent dollar strict i finalString trace arbitrary: finalString2
    rule: loop.induct)
  case (1 str fn percent dollar strict i finalString trace)
  show ?case
  proof (cases "i < length str")
    case False
    then show ?thesis
      by (simp add: loop.simps [of str _ percent dollar strict i])
  next
    case True
    note b = body_any_resolver [of str fn percent dollar strict i finalString trace g finalString2]
    show ?thesis
    proof (cases "body str fn percent dollar strict i finalString trace")
      case (Inl e)
      then have "body str g percent dollar strict i finalString2 trace = Inl e"
        using b by (cases "body str g percent dollar strict i finalString2 trace") auto
      then show ?thesis
        using True Inl by (simp add: loop.simps [of str _ percent dollar strict i])
    next
      case (Inr r)
      obtain c i1 out1 tr1 where r: "r = (c, i1, out1, tr1)" by (cases r)
      obtain out2 where b2: "body str g percent dollar strict i finalString2 trace
          = Inr (c, i1, out2, tr1)"
        using b Inr r by (cases "body str g percent dollar strict i finalString2 trace") auto
      show ?thesis
      proof (cases c)
        case Continue
        then show ?thesis
          using "1.IH" [OF True Inr [unfolded r Continue] refl refl refl refl, of out2]
            True Inr r b2
          by (simp add: loop.simps [of str _ percent dollar strict i])
      next
        case Break
        then show ?thesis
          using True Inr r b2 by (simp add: loop.simps [of str _ percent dollar strict i])
      qed
    qed
  qed
qed

text \<open>
  Each scan appends one event. A \<open>Call\<close> carries the characters read since the scan
  began, and the position of the character that ended the name.
\<close>

lemma scan_dollar_brace_call:
  "scan_dollar_brace str fn strict i varName finalString trace = Inr (i', out, tr)
    \<Longrightarrow> (\<exists>t. tr = trace @ [Text t])
        \<or> (tr = trace @ [Call i' (varName @ slice str (i + 1) i')] \<and> i' < length str)"
proof (induction str fn strict i varName finalString trace rule: scan_dollar_brace.induct)
  case (1 str fn strict i varName finalString trace)
  show ?case
  proof (cases "charAt str (i + 1) \<in> CHARS_DOLLAR_BRACE")
    case True
    then have "charAt str (i + 1) \<noteq> []"
      using empty_notin_CHARS_DOLLAR_BRACE by auto
    then have a: "i + 1 < length str" by (rule charAt_in_range)
    have r: "scan_dollar_brace str fn strict (i + 1) (varName @ charAt str (i + 1))
        finalString trace = Inr (i', out, tr)"
      using "1.prems" True by (simp add: scan_dollar_brace_step [of str fn strict i])
    then have "i + 1 < i'"
      using scan_dollar_brace_cursor by blast
    then have "charAt str (i + 1) @ slice str (i + 1 + 1) i' = slice str (i + 1) i'"
      using a by (intro slice_step)
    then show ?thesis
      using "1.IH" [OF refl refl True r] by auto
  next
    case False
    then show ?thesis
      using "1.prems" charAt_js_in_range [of str "i + 1"]
      by (auto simp: scan_dollar_brace_step [of str fn strict i] slice_same split: if_splits)
  qed
qed

lemma scan_percent_call:
  "scan_percent str fn strict i varName finalString trace = Inr (i', out, tr)
    \<Longrightarrow> (\<exists>t. tr = trace @ [Text t])
        \<or> (tr = trace @ [Call i' (varName @ slice str (i + 1) i')] \<and> i' < length str)"
proof (induction str fn strict i varName finalString trace rule: scan_percent.induct)
  case (1 str fn strict i varName finalString trace)
  show ?case
  proof (cases "charAt str (i + 1) \<in> CHARS_PERCENT")
    case True
    then have "charAt str (i + 1) \<noteq> []"
      using empty_notin_CHARS_PERCENT by auto
    then have a: "i + 1 < length str" by (rule charAt_in_range)
    have r: "scan_percent str fn strict (i + 1) (varName @ charAt str (i + 1))
        finalString trace = Inr (i', out, tr)"
      using "1.prems" True by (simp add: scan_percent_step [of str fn strict i])
    then have "i + 1 < i'"
      using scan_percent_cursor by blast
    then have "charAt str (i + 1) @ slice str (i + 1 + 1) i' = slice str (i + 1) i'"
      using a by (intro slice_step)
    then show ?thesis
      using "1.IH" [OF refl refl True r] by auto
  next
    case False
    then show ?thesis
      using "1.prems" charAt_js_in_range [of str "i + 1"]
      by (auto simp: scan_percent_step [of str fn strict i] slice_same split: if_splits)
  qed
qed

lemma scan_dollar_call:
  "scan_dollar str fn i varName finalString trace = (i', out, tr) \<Longrightarrow> i < length str
    \<Longrightarrow> (\<exists>t. tr = trace @ [Text t])
        \<or> (tr = trace @ [Call (i' + 1) (varName @ slice str (i + 1) (i' + 1))]
            \<and> i' < length str \<and> i \<le> i')"
proof (induction str fn i varName finalString trace rule: scan_dollar.induct)
  case (1 str fn i varName finalString trace)
  show ?case
  proof (cases "charAt str (i + 1) \<in> CHARS_DOLLAR")
    case True
    then have "charAt str (i + 1) \<noteq> []"
      using empty_notin_CHARS_DOLLAR by auto
    then have a: "i + 1 < length str" by (rule charAt_in_range)
    have r: "scan_dollar str fn (i + 1) (varName @ charAt str (i + 1)) finalString trace
        = (i', out, tr)"
      using "1.prems"(1) True by (simp add: scan_dollar_step [of str fn i])
    then have "i + 1 \<le> i'"
      using scan_dollar_cursor by blast
    then have "charAt str (i + 1) @ slice str (i + 1 + 1) (i' + 1) = slice str (i + 1) (i' + 1)"
      using a by (intro slice_step) simp_all
    then show ?thesis
      using "1.IH" [OF refl refl True r a] by auto
  next
    case False
    then show ?thesis
      using "1.prems"
      by (auto simp: scan_dollar_step [of str fn i] slice_same split: if_splits)
  qed
qed

lemma body_call:
  assumes "i < length str"
    and "body str fn percent dollar strict i finalString trace = Inr (c, i', out, tr)"
  shows "(\<exists>t. tr = trace @ [Text t])
      \<or> (\<exists>j name. tr = trace @ [Call j name] \<and> i < j \<and> j \<le> i' + 1 \<and> j \<le> length str
            \<and> name = slice str (j - length name) j)"
proof (cases rule: body_cases [where dollar = dollar and str = str and i = i and percent = percent])
  case esc_dollar
  then show ?thesis using assms(2) by (auto simp: body_esc_dollar)
next
  case empty_brace
  then show ?thesis using assms(2) by (auto simp: body_empty_brace split: if_splits)
next
  case brace
  then have r: "scan_dollar_brace str fn strict (i + 1) [] finalString trace = Inr (i', out, tr)"
    using assms(2) by (cases "scan_dollar_brace str fn strict (i + 1) [] finalString trace")
      (auto simp: body_brace)
  then have lt: "i + 1 < i'"
    using scan_dollar_brace_cursor by blast
  from scan_dollar_brace_call [OF r] show ?thesis
  proof
    assume "\<exists>t. tr = trace @ [Text t]"
    then show ?thesis by blast
  next
    assume a: "tr = trace @ [Call i' ([] @ slice str (i + 1 + 1) i')] \<and> i' < length str"
    then have "slice str (i' - length (slice str (i + 1 + 1) i')) i' = slice str (i + 1 + 1) i'"
      using lt by (intro slice_by_length) simp_all
    then show ?thesis using a lt by auto
  qed
next
  case bare
  then have r: "scan_dollar str fn i [] finalString trace = (i', out, tr)"
    using assms(2) by (auto simp: body_bare)
  from scan_dollar_call [OF r assms(1)] show ?thesis
  proof
    assume "\<exists>t. tr = trace @ [Text t]"
    then show ?thesis by blast
  next
    assume a: "tr = trace @ [Call (i' + 1) ([] @ slice str (i + 1) (i' + 1))]
        \<and> i' < length str \<and> i \<le> i'"
    then have "slice str (i' + 1 - length (slice str (i + 1) (i' + 1))) (i' + 1)
        = slice str (i + 1) (i' + 1)"
      by (intro slice_by_length) simp_all
    then show ?thesis using a by auto
  qed
next
  case esc_percent
  then show ?thesis using assms(2) by (auto simp: body_esc_percent)
next
  case percent
  then have r: "scan_percent str fn strict i [] finalString trace = Inr (i', out, tr)"
    using assms(2) by (cases "scan_percent str fn strict i [] finalString trace")
      (auto simp: body_percent)
  then have lt: "i < i'"
    using scan_percent_cursor by blast
  from scan_percent_call [OF r] show ?thesis
  proof
    assume "\<exists>t. tr = trace @ [Text t]"
    then show ?thesis by blast
  next
    assume a: "tr = trace @ [Call i' ([] @ slice str (i + 1) i')] \<and> i' < length str"
    then have "slice str (i' - length (slice str (i + 1) i')) i' = slice str (i + 1) i'"
      using lt by (intro slice_by_length) simp_all
    then show ?thesis using a lt by auto
  qed
next
  case literal
  then show ?thesis using assms(2) by (auto simp: body_literal)
qed

lemma calls_in_order_Text:
  "calls_in_order str b trace \<Longrightarrow> b \<le> b' \<Longrightarrow> calls_in_order str b' (trace @ [Text t])"
  by (auto simp: calls_in_order_def calls_append list_all_iff)

lemma calls_in_order_Call:
  "\<lbrakk>calls_in_order str b trace; b < j; j \<le> b'; j \<le> length str;
    name = slice str (j - length name) j\<rbrakk>
    \<Longrightarrow> calls_in_order str b' (trace @ [Call j name])"
  by (fastforce simp: calls_in_order_def calls_append list_all_iff sorted_wrt_append)

lemma calls_in_order_end:
  "calls_in_order str b trace \<Longrightarrow> calls_in_order str (length str) trace"
  by (auto simp: calls_in_order_def list_all_iff)

lemma body_calls_in_order:
  assumes "i < length str"
    and "body str fn percent dollar strict i finalString trace = Inr (c, i', out, tr)"
    and "calls_in_order str i trace"
  shows "calls_in_order str (i' + 1) tr"
proof -
  have "i \<le> i'"
    using body_cursor [OF assms(1,2)] by simp
  then show ?thesis
    using body_call [OF assms(1,2)] assms(3)
    by (auto intro: calls_in_order_Text calls_in_order_Call)
qed

lemma loop_calls_in_order:
  "loop str fn percent dollar strict i finalString trace = Inr (out, tr)
    \<Longrightarrow> calls_in_order str i trace \<Longrightarrow> calls_in_order str (length str) tr"
proof (induction str fn percent dollar strict i finalString trace rule: loop.induct)
  case (1 str fn percent dollar strict i finalString trace)
  show ?case
  proof (cases "i < length str")
    case False
    then show ?thesis
      using "1.prems" calls_in_order_end [of str i trace]
      by (auto simp: loop.simps [of str fn percent dollar strict i])
  next
    case True
    then obtain c i1 out1 tr1 where
      b: "body str fn percent dollar strict i finalString trace = Inr (c, i1, out1, tr1)"
      using "1.prems"(1)
      by (cases "body str fn percent dollar strict i finalString trace")
        (auto simp: loop.simps [of str fn percent dollar strict i])
    have o: "calls_in_order str (i1 + 1) tr1"
      using True b "1.prems"(2) by (rule body_calls_in_order)
    show ?thesis
    proof (cases c)
      case Continue
      then have "loop str fn percent dollar strict (i1 + 1) out1 tr1 = Inr (out, tr)"
        using "1.prems"(1) True b by (simp add: loop.simps [of str fn percent dollar strict i])
      then show ?thesis
        using "1.IH" [OF True b [unfolded Continue] refl refl refl refl] o by simp
    next
      case Break
      then have "tr = tr1"
        using "1.prems"(1) True b by (simp add: loop.simps [of str fn percent dollar strict i])
      then show ?thesis
        using o by (simp add: calls_in_order_end)
    qed
  qed
qed

text \<open>
  The calls of a run that returns. They have strictly increasing positions in the
  input, and each name is the text of the input that ends just before its call's
  position. The returned string is the concatenation of what the events emitted, where a
  call emits exactly the resolver's string, or the empty string when the resolver gives
  no value. The run makes the same calls whatever the resolver returns.
\<close>

lemma calls_of_a_run:
  assumes "substitute_run str fn percent dollar strict = Inr (out, trace)"
  shows "out = concat (map (emitted fn) trace)
    \<and> substitute_run str g percent dollar strict = Inr (concat (map (emitted g) trace), trace)
    \<and> sorted_wrt (<) (map fst (calls trace))
    \<and> list_all (\<lambda>(j, name). j \<le> length str \<and> name = slice str (j - length name) j)
        (calls trace)"
proof -
  have l: "loop str fn percent dollar strict 0 [] [] = Inr (out, trace)"
    using assms by (simp add: substitute_run_def)
  have 1: "out = concat (map (emitted fn) trace)"
    using loop_rendered [OF l] by (simp add: rendered_def)
  have "loop_effect (loop str g percent dollar strict 0 [] []) = Inr trace"
    using loop_any_resolver [of str g percent dollar strict 0 "[]" "[]" fn "[]"] l by simp
  then obtain out2 where l2: "loop str g percent dollar strict 0 [] [] = Inr (out2, trace)"
    by (cases "loop str g percent dollar strict 0 [] []") auto
  then have "out2 = concat (map (emitted g) trace)"
    using loop_rendered [OF l2] by (simp add: rendered_def)
  then have 2: "substitute_run str g percent dollar strict
      = Inr (concat (map (emitted g) trace), trace)"
    using l2 by (simp add: substitute_run_def)
  have "calls_in_order str 0 []"
    by (simp add: calls_in_order_def)
  then have "calls_in_order str (length str) trace"
    using loop_calls_in_order [OF l] by simp
  then have 3: "sorted_wrt (<) (map fst (calls trace))"
    and 4: "list_all (\<lambda>(j, name). j \<le> length str \<and> name = slice str (j - length name) j)
        (calls trace)"
    by (auto simp: calls_in_order_def list_all_iff)
  show ?thesis using 1 2 3 4 by simp
qed

lemma calls_of_a_run_example:
  "substitute_run (js ''$a-${a}%x%$$'') (\<lambda>n. if n = js ''x'' then None else Some (n @ n))
      True True True
     = Inr (js ''aa-aa$'',
         [Call 2 (js ''a''), Text (js ''-''), Call 6 (js ''a''), Call 9 (js ''x''),
          Text (js ''$'')])
   \<and> substitute_run (js ''$a-${a}%x%$$'') Some True True True
     = Inr (js ''a-ax$'',
         [Call 2 (js ''a''), Text (js ''-''), Call 6 (js ''a''), Call 9 (js ''x''),
          Text (js ''$'')])
   \<and> calls [Call 2 (js ''a''), Text (js ''-''), Call 6 (js ''a''), Call 9 (js ''x''),
          Text (js ''$'')] = [(2, js ''a''), (6, js ''a''), (9, js ''x'')]
   \<and> slice (js ''$a-${a}%x%$$'') 1 2 = js ''a''
   \<and> slice (js ''$a-${a}%x%$$'') 5 6 = js ''a''
   \<and> slice (js ''$a-${a}%x%$$'') 8 9 = js ''x''"
proof -
  have r: "substitute_run (js ''$a-${a}%x%$$'') (\<lambda>n. if n = js ''x'' then None else Some (n @ n))
      True True True
     = Inr (js ''aa-aa$'',
         [Call 2 (js ''a''), Text (js ''-''), Call 6 (js ''a''), Call 9 (js ''x''),
          Text (js ''$'')])"
    by (simp add: run_table or_empty_def)
  show ?thesis
    using r calls_of_a_run [OF r, of Some]
    by (simp add: or_empty_def js_def slice_def)
qed

text \<open>
  A scan that reads class characters from \<open>i + 1\<close> up to \<open>j - 1\<close> and finds its terminator
  at \<open>j\<close> calls the resolver once, with the name read so far followed by exactly those
  characters.
\<close>

lemma scan_dollar_brace_reference:
  assumes "\<forall>k. i < k \<and> k < j \<longrightarrow> charAt str k \<in> CHARS_DOLLAR_BRACE"
    and "charAt str j = js ''}''" and "i < j"
  shows "scan_dollar_brace str fn strict i varName finalString trace
     = Inr (j, finalString @ or_empty (fn (varName @ slice str (i + 1) j)),
            trace @ [Call j (varName @ slice str (i + 1) j)])"
  using assms
proof (induction "j - i" arbitrary: i varName)
  case 0
  then show ?case by simp
next
  case (Suc n)
  show ?case
  proof (cases "i + 1 = j")
    case True
    have "js ''}'' \<notin> CHARS_DOLLAR_BRACE"
      by (simp add: CHARS_DOLLAR_BRACE_def js_def)
    then show ?thesis
      using True Suc.prems(2)
      by (subst scan_dollar_brace_step) (simp add: slice_same)
  next
    case False
    then have lt: "i + 1 < j" using Suc.prems(3) by simp
    then have m: "charAt str (i + 1) \<in> CHARS_DOLLAR_BRACE"
      using Suc.prems(1) by simp
    then have "charAt str (i + 1) \<noteq> []"
      using empty_notin_CHARS_DOLLAR_BRACE by auto
    then have "i + 1 < length str" by (rule charAt_in_range)
    then have sl: "charAt str (i + 1) @ slice str (i + 1 + 1) j = slice str (i + 1) j"
      using lt by (rule slice_step)
    have "scan_dollar_brace str fn strict (i + 1) (varName @ charAt str (i + 1)) finalString trace
      = Inr (j, finalString @ or_empty (fn ((varName @ charAt str (i + 1)) @ slice str (i + 1 + 1) j)),
             trace @ [Call j ((varName @ charAt str (i + 1)) @ slice str (i + 1 + 1) j)])"
      using Suc.hyps Suc.prems lt by (intro Suc.hyps(1)) auto
    then show ?thesis
      using m sl by (subst scan_dollar_brace_step) simp
  qed
qed

lemma scan_percent_reference:
  assumes "\<forall>k. i < k \<and> k < j \<longrightarrow> charAt str k \<in> CHARS_PERCENT"
    and "charAt str j = js ''%''" and "i < j"
  shows "scan_percent str fn strict i varName finalString trace
     = Inr (j, finalString @ or_empty (fn (varName @ slice str (i + 1) j)),
            trace @ [Call j (varName @ slice str (i + 1) j)])"
  using assms
proof (induction "j - i" arbitrary: i varName)
  case 0
  then show ?case by simp
next
  case (Suc n)
  show ?case
  proof (cases "i + 1 = j")
    case True
    have "js ''%'' \<notin> CHARS_PERCENT"
      by (simp add: CHARS_PERCENT_def js_def)
    then show ?thesis
      using True Suc.prems(2)
      by (subst scan_percent_step) (simp add: slice_same)
  next
    case False
    then have lt: "i + 1 < j" using Suc.prems(3) by simp
    then have m: "charAt str (i + 1) \<in> CHARS_PERCENT"
      using Suc.prems(1) by simp
    then have "charAt str (i + 1) \<noteq> []"
      using empty_notin_CHARS_PERCENT by auto
    then have "i + 1 < length str" by (rule charAt_in_range)
    then have sl: "charAt str (i + 1) @ slice str (i + 1 + 1) j = slice str (i + 1) j"
      using lt by (rule slice_step)
    have "scan_percent str fn strict (i + 1) (varName @ charAt str (i + 1)) finalString trace
      = Inr (j, finalString @ or_empty (fn ((varName @ charAt str (i + 1)) @ slice str (i + 1 + 1) j)),
             trace @ [Call j ((varName @ charAt str (i + 1)) @ slice str (i + 1 + 1) j)])"
      using Suc.hyps Suc.prems lt by (intro Suc.hyps(1)) auto
    then show ?thesis
      using m sl by (subst scan_percent_step) simp
  qed
qed

lemma scan_dollar_reference:
  assumes "\<forall>k. i < k \<and> k < j \<longrightarrow> charAt str k \<in> CHARS_DOLLAR"
    and "charAt str j \<notin> CHARS_DOLLAR" and "i < j" and "varName \<noteq> [] \<or> i + 1 < j"
  shows "scan_dollar str fn i varName finalString trace
     = (j - 1, finalString @ or_empty (fn (varName @ slice str (i + 1) j)),
        trace @ [Call j (varName @ slice str (i + 1) j)])"
  using assms
proof (induction "j - i" arbitrary: i varName)
  case 0
  then show ?case by simp
next
  case (Suc n)
  show ?case
  proof (cases "i + 1 = j")
    case True
    then have "varName \<noteq> []" using Suc.prems(4) by simp
    then show ?thesis
      using True Suc.prems(2)
      by (subst scan_dollar_step) (auto simp: slice_same)
  next
    case False
    then have lt: "i + 1 < j" using Suc.prems(3) by simp
    then have m: "charAt str (i + 1) \<in> CHARS_DOLLAR"
      using Suc.prems(1) by simp
    then have ne: "charAt str (i + 1) \<noteq> []"
      using empty_notin_CHARS_DOLLAR by auto
    then have "i + 1 < length str" by (rule charAt_in_range)
    then have sl: "charAt str (i + 1) @ slice str (i + 1 + 1) j = slice str (i + 1) j"
      using lt by (rule slice_step)
    have "scan_dollar str fn (i + 1) (varName @ charAt str (i + 1)) finalString trace
      = (j - 1, finalString @ or_empty (fn ((varName @ charAt str (i + 1)) @ slice str (i + 1 + 1) j)),
         trace @ [Call j ((varName @ charAt str (i + 1)) @ slice str (i + 1 + 1) j)])"
      using Suc.hyps Suc.prems lt ne by (intro Suc.hyps(1)) auto
    then show ?thesis
      using m sl by (subst scan_dollar_step) simp
  qed
qed

text \<open>
  The outer loop on a reference. When a pass starts at \<open>i\<close> on \<open>${NAME}\<close>, on \<open>$NAME\<close>
  or on \<open>%NAME%\<close>, with \<open>NAME\<close> not empty, made of characters of the form's table and
  ended at \<open>j\<close>, the run is: one call of the resolver with \<open>NAME\<close>, its string (or the
  empty string) appended to the output, and the loop going on behind the reference (on
  the character that ended a bare name).
\<close>

lemma loop_at_brace_reference:
  assumes "charAt str i = js ''$''" and "charAt str (i + 1) = js ''{''" and "i + 2 < j"
    and "\<forall>k. i + 1 < k \<and> k < j \<longrightarrow> charAt str k \<in> CHARS_DOLLAR_BRACE"
    and "charAt str j = js ''}''"
  shows "loop str fn percent True strict i finalString trace
     = loop str fn percent True strict (j + 1)
         (finalString @ or_empty (fn (slice str (i + 2) j)))
         (trace @ [Call j (slice str (i + 2) j)])"
proof -
  have l: "i < length str"
    using assms(1) by (rule charAt_js_in_range)
  have "charAt str (i + 2) \<in> CHARS_DOLLAR_BRACE"
    using assms(3,4) by simp
  moreover have "js ''}'' \<notin> CHARS_DOLLAR_BRACE"
    by (simp add: CHARS_DOLLAR_BRACE_def js_def)
  ultimately have n: "charAt str (i + 2) \<noteq> js ''}''" by auto
  have "scan_dollar_brace str fn strict (i + 1) [] finalString trace
      = Inr (j, finalString @ or_empty (fn ([] @ slice str (i + 1 + 1) j)),
             trace @ [Call j ([] @ slice str (i + 1 + 1) j)])"
    using assms(3,4,5) by (intro scan_dollar_brace_reference) auto
  then have b: "body str fn percent True strict i finalString trace
      = Inr (Continue, j, finalString @ or_empty (fn (slice str (i + 2) j)),
             trace @ [Call j (slice str (i + 2) j)])"
    using assms(1,2) n by (simp add: body_brace)
  show ?thesis
    by (subst loop.simps) (simp add: l b)
qed

lemma loop_at_bare_reference:
  assumes "charAt str i = js ''$''" and "i + 1 < j"
    and "\<forall>k. i < k \<and> k < j \<longrightarrow> charAt str k \<in> CHARS_DOLLAR"
    and "charAt str j \<notin> CHARS_DOLLAR"
  shows "loop str fn percent True strict i finalString trace
     = loop str fn percent True strict j
         (finalString @ or_empty (fn (slice str (i + 1) j)))
         (trace @ [Call j (slice str (i + 1) j)])"
proof -
  have l: "i < length str"
    using assms(1) by (rule charAt_js_in_range)
  have "charAt str (i + 1) \<in> CHARS_DOLLAR"
    using assms(2,3) by simp
  moreover have "js ''$'' \<notin> CHARS_DOLLAR" "js ''{'' \<notin> CHARS_DOLLAR"
    by (simp_all add: CHARS_DOLLAR_def js_def)
  ultimately have n: "charAt str (i + 1) \<noteq> js ''$''" "charAt str (i + 1) \<noteq> js ''{''"
    by auto
  have "scan_dollar str fn i [] finalString trace
      = (j - 1, finalString @ or_empty (fn ([] @ slice str (i + 1) j)),
         trace @ [Call j ([] @ slice str (i + 1) j)])"
    using assms(2,3,4) by (intro scan_dollar_reference) auto
  then have b: "body str fn percent True strict i finalString trace
      = Inr (Continue, j - 1, finalString @ or_empty (fn (slice str (i + 1) j)),
             trace @ [Call j (slice str (i + 1) j)])"
    using assms(1) n by (simp add: body_bare)
  have "j - 1 + 1 = j" using assms(2) by simp
  then show ?thesis
    by (subst loop.simps) (simp add: l b)
qed

lemma loop_at_percent_reference:
  assumes "charAt str i = js ''%''" and "i + 1 < j"
    and "\<forall>k. i < k \<and> k < j \<longrightarrow> charAt str k \<in> CHARS_PERCENT"
    and "charAt str j = js ''%''"
  shows "loop str fn True dollar strict i finalString trace
     = loop str fn True dollar strict (j + 1)
         (finalString @ or_empty (fn (slice str (i + 1) j)))
         (trace @ [Call j (slice str (i + 1) j)])"
proof -
  have l: "i < length str"
    using assms(1) by (rule charAt_js_in_range)
  have "charAt str (i + 1) \<in> CHARS_PERCENT"
    using assms(2,3) by simp
  moreover have "js ''%'' \<notin> CHARS_PERCENT"
    by (simp add: CHARS_PERCENT_def js_def)
  ultimately have n: "charAt str (i + 1) \<noteq> js ''%''" by auto
  have "scan_percent str fn strict i [] finalString trace
      = Inr (j, finalString @ or_empty (fn ([] @ slice str (i + 1) j)),
             trace @ [Call j ([] @ slice str (i + 1) j)])"
    using assms(2,3,4) by (intro scan_percent_reference) auto
  then have b: "body str fn True dollar strict i finalString trace
      = Inr (Continue, j, finalString @ or_empty (fn (slice str (i + 1) j)),
             trace @ [Call j (slice str (i + 1) j)])"
    using assms(1) n by (simp add: body_percent)
  show ?thesis
    by (subst loop.simps) (simp add: l b)
qed

text \<open>
  C8. The resolver is said to be called exactly once for each reference, from left to
  right, with the extracted name, on every input. A pass that starts on a reference
  does so (\<open>loop_at_brace_reference\<close>, \<open>loop_at_bare_reference\<close>,
  \<open>loop_at_percent_reference\<close>), and the calls of a run are made from left to right
  (\<open>calls_of_a_run\<close>). But in lenient mode the outer loop is left at an empty brace
  form, and a reference behind it is never read: \<open>"$a"\<close> alone calls the resolver with
  \<open>a\<close>, while on \<open>"${}$a"\<close>, \<open>"${}%a%"\<close> and \<open>"${}${a}"\<close> the run returns \<open>"${}"\<close>
  and makes no call.
\<close>

theorem reference_after_empty_brace_not_resolved:
  "substitute_run (js ''$a'') fn percent True False
     = Inr (or_empty (fn (js ''a'')), [Call 2 (js ''a'')])
   \<and> substitute_run (js ''${}$a'') fn percent True False
     = Inr (js ''${}'', [Text (js ''${}'')])
   \<and> substitute_run (js ''${}%a%'') fn True True False
     = Inr (js ''${}'', [Text (js ''${}'')])
   \<and> substitute_run (js ''${}${a}'') fn percent True False
     = Inr (js ''${}'', [Text (js ''${}'')])"
  by (simp add: run_table)

end
